theory Spec2Isabelle
  imports Complex_Main "HOL-Library.Word" "HOL-Library.Log_Nat"
begin

section \<open>The container page of cAdvisor: data model\<close>

text \<open>
  The development follows \<^verbatim>\<open>pages/containers.go\<close>.  Go's \<^verbatim>\<open>uint64\<close> is a 64-bit
  word whose arithmetic wraps around; Go's \<^verbatim>\<open>int\<close> is taken at its 64-bit width
  (the amd64 platform), read from a word with \<^const>\<open>sint\<close>.  A run-time panic of the
  source, or a result that the language leaves to the implementation, is a value of type
  \<open>fault\<close>; a function that can end so returns \<open>fault + 'a\<close>.
\<close>

type_synonym uint64 = "64 word"

datatype fault =
    DivideByZero          \<comment> \<open>integer division by zero\<close>
  | NegativeLen           \<comment> \<open>\<^verbatim>\<open>make\<close> with a negative length\<close>
  | SliceBounds           \<comment> \<open>slice bounds out of range\<close>
  | FloatToIntRange       \<comment> \<open>conversion of a float that the integer type cannot hold
                              (implementation-dependent in Go: no value is modelled)\<close>

text \<open>
  Modelled from the spec: the types \<^verbatim>\<open>ContainerSpec\<close>, \<^verbatim>\<open>ContainerStats\<close>,
  \<^verbatim>\<open>FsStats\<close> and \<^verbatim>\<open>MachineInfo\<close> of the package \<^verbatim>\<open>info\<close>, which the source
  imports and whose declarations are not among the sources.  The fields are those that
  \<^verbatim>\<open>containers.go\<close> reads, under the names it uses (a prefix tells apart the fields
  that share a name): the memory limit of a spec and its availability flags, the memory
  usage and working set of a sample with its per-mount filesystem stats (capacity limit
  and bytes used), the core count and memory capacity of a machine.
  \<^verbatim>\<open>spec.Memory.Limit\<close> and \<^verbatim>\<open>machine.MemoryCapacity\<close> are read through the
  conversion \<^verbatim>\<open>uint64(...)\<close>, so both are held as the 64-bit pattern that the conversion
  yields.  A sample window is a list of samples, oldest first; the pointers of
  \<^verbatim>\<open>[]*info.ContainerStats\<close> are taken to be non-nil.
\<close>

record MemorySpec =
  Limit :: uint64

record ContainerSpec =
  HasCpu :: bool
  HasMemory :: bool
  HasNetwork :: bool
  HasFilesystem :: bool
  spec_Memory :: MemorySpec

record MemoryStats =
  Usage :: uint64
  WorkingSet :: uint64

record FsStats =
  Device :: string
  fs_Limit :: uint64
  fs_Usage :: uint64

record ContainerStats =
  stats_Memory :: MemoryStats
  Filesystem :: "FsStats list"

record MachineInfo =
  NumCores :: int
  MemoryCapacity :: uint64

section \<open>Memory percentages\<close>

text \<open>
  \<^verbatim>\<open>toMemoryPercent\<close>: the limit is saturated to the machine size, then
  \<^verbatim>\<open>int((usage * 100) / limit)\<close> is computed on \<^verbatim>\<open>uint64\<close>: the product wraps
  modulo \<open>2^64\<close>, the division panics when the limit is zero, and the conversion to
  \<^verbatim>\<open>int\<close> reads the quotient as a signed value.
\<close>

definition toMemoryPercent :: "uint64 \<Rightarrow> ContainerSpec \<Rightarrow> MachineInfo \<Rightarrow> fault + int" where
  "toMemoryPercent usage spec machine =
     (let limit = Limit (spec_Memory spec);
          limit = (if limit > MemoryCapacity machine then MemoryCapacity machine else limit)
      in if limit = 0 then Inl DivideByZero
         else Inr (sint ((usage * 100) div limit)))"

definition getMemoryUsagePercent ::
    "ContainerSpec \<Rightarrow> ContainerStats list \<Rightarrow> MachineInfo \<Rightarrow> fault + int" where
  "getMemoryUsagePercent spec stats machine =
     (if length stats = 0 then Inr 0
      else toMemoryPercent (Usage (stats_Memory (last stats))) spec machine)"

definition getHotMemoryPercent ::
    "ContainerSpec \<Rightarrow> ContainerStats list \<Rightarrow> MachineInfo \<Rightarrow> fault + int" where
  "getHotMemoryPercent spec stats machine =
     (if length stats = 0 then Inr 0
      else toMemoryPercent (WorkingSet (stats_Memory (last stats))) spec machine)"

definition getColdMemoryPercent ::
    "ContainerSpec \<Rightarrow> ContainerStats list \<Rightarrow> MachineInfo \<Rightarrow> fault + int" where
  "getColdMemoryPercent spec stats machine =
     (if length stats = 0 then Inr 0
      else let latestStats = stats_Memory (last stats)
           in toMemoryPercent (Usage latestStats - WorkingSet latestStats) spec machine)"

definition getFsStats :: "ContainerStats list \<Rightarrow> FsStats list" where
  "getFsStats stats = (if length stats = 0 then [] else Filesystem (last stats))"

text \<open>
  The specification's formula for the memory percentage, on unbounded naturals:
  \<open>floor (usage * 100 / min limit capacity)\<close>.
\<close>

definition MemoryPercent_spec :: "nat \<Rightarrow> nat \<Rightarrow> nat \<Rightarrow> int" where
  "MemoryPercent_spec usage limit machineCap = int ((usage * 100) div (min limit machineCap))"

text \<open>Sample values: a spec with a memory limit, a machine with a memory capacity, a sample.\<close>

abbreviation mk_spec :: "uint64 \<Rightarrow> ContainerSpec" where
  "mk_spec l \<equiv> \<lparr>HasCpu = True, HasMemory = True, HasNetwork = True, HasFilesystem = True,
                spec_Memory = \<lparr>Limit = l\<rparr>\<rparr>"

abbreviation mk_machine :: "uint64 \<Rightarrow> MachineInfo" where
  "mk_machine c \<equiv> \<lparr>NumCores = 4, MemoryCapacity = c\<rparr>"

abbreviation mk_stats :: "uint64 \<Rightarrow> uint64 \<Rightarrow> ContainerStats" where
  "mk_stats u w \<equiv> \<lparr>stats_Memory = \<lparr>Usage = u, WorkingSet = w\<rparr>, Filesystem = []\<rparr>"

section \<open>Floating point\<close>

text \<open>
  \<^verbatim>\<open>float64\<close> is IEEE 754 binary64 with round-to-nearest, ties-to-even.  A finite
  float is held as the rational it denotes.  Every float of this program comes from an
  unsigned 64-bit integer through conversions, divisions and one multiplication by 100,
  so it is zero or lies between \<open>2^-64\<close> and \<open>2^80\<close>: well inside the normal range,
  where rounding keeps 53 significant bits and neither overflow nor subnormals occur.

  \<open>rne\<close> rounds a rational to the nearest integer, ties to even; \<open>ilog2 x\<close> is the
  exponent \<open>e\<close> with \<open>2^e \<le> x < 2^(e+1)\<close> for \<open>x > 0\<close>; \<open>f64_round\<close> rounds to 53
  significant bits.
\<close>

definition rne :: "rat \<Rightarrow> int" where
  "rne x = (let f = \<lfloor>x\<rfloor>; r = x - of_int f
            in if r < 1/2 \<or> (r = 1/2 \<and> even f) then f else f + 1)"

definition pow2 :: "int \<Rightarrow> rat" where
  "pow2 e = (if 0 \<le> e then 2 ^ nat e else 1 / 2 ^ nat (- e))"

definition ilog2 :: "rat \<Rightarrow> int" where
  "ilog2 x = (if 1 \<le> x then bitlen \<lfloor>x\<rfloor> - 1 else - bitlen (\<lceil>1 / x\<rceil> - 1))"

definition f64_round :: "rat \<Rightarrow> rat" where
  "f64_round x =
     (if x = 0 then 0
      else let a = \<bar>x\<bar>; s = pow2 (ilog2 a - 52)
           in sgn x * of_int (rne (a / s)) * s)"

definition f64_of_uint64 :: "uint64 \<Rightarrow> rat" where
  "f64_of_uint64 u = f64_round (of_nat (unat u))"

definition f64_div :: "rat \<Rightarrow> rat \<Rightarrow> rat" where
  "f64_div a b = f64_round (a / b)"

definition f64_mul :: "rat \<Rightarrow> rat \<Rightarrow> rat" where
  "f64_mul a b = f64_round (a * b)"

text \<open>
  \<^verbatim>\<open>uint64(x)\<close> of a float truncates towards zero; when the truncated value does not fit,
  Go leaves the result to the implementation.
\<close>

definition uint64_of_f64 :: "rat \<Rightarrow> fault + uint64" where
  "uint64_of_f64 x =
     (let t = (if 0 \<le> x then \<lfloor>x\<rfloor> else \<lceil>x\<rceil>)
      in if t < 0 \<or> 2 ^ 64 \<le> t then Inl FloatToIntRange else Inr (word_of_int t))"

section \<open>Formatting numbers\<close>

definition digit_char :: "int \<Rightarrow> char" where
  "digit_char d = ''0123456789'' ! nat (d mod 10)"

text \<open>
  \<^verbatim>\<open>%d\<close> of an integer: \<open>show_dec\<close> writes the decimal digits of a non-negative
  integer, \<open>show_int\<close> puts the sign before them.
\<close>

function show_dec :: "int \<Rightarrow> string" where
  "show_dec n = (if n < 10 then [digit_char n] else show_dec (n div 10) @ [digit_char (n mod 10)])"
  by pat_completeness auto
termination
  by (relation "measure nat") auto

declare show_dec.simps [simp del]

definition show_int :: "int \<Rightarrow> string" where
  "show_int i = (if i < 0 then CHR ''-'' # show_dec (- i) else show_dec i)"

text \<open>
  \<^verbatim>\<open>fmt.Sprintf("%.2f", x)\<close> and \<^verbatim>\<open>strconv.FormatFloat(x, 'f', 2, 64)\<close>: the exact
  decimal expansion of the float, rounded to two places, ties to even.  \<open>dec2 n\<close>
  writes \<open>n\<close> hundredths as a decimal with two places.
\<close>

definition dec2 :: "int \<Rightarrow> string" where
  "dec2 n = show_dec (n div 100) @ [CHR ''.'', digit_char (n div 10 mod 10), digit_char (n mod 10)]"

definition fmt_2f :: "rat \<Rightarrow> string" where
  "fmt_2f x = (if x < 0 then [CHR ''-''] else []) @ dec2 (rne (\<bar>x\<bar> * 100))"

section \<open>Byte sizes\<close>

text \<open>\<^verbatim>\<open>type ByteSize float64\<close> with the constants \<^verbatim>\<open>1 << (10 * iota)\<close>.\<close>

definition KB :: rat where "KB = 2 ^ 10"
definition MB :: rat where "MB = 2 ^ 20"
definition GB :: rat where "GB = 2 ^ 30"
definition TB :: rat where "TB = 2 ^ 40"
definition PB :: rat where "PB = 2 ^ 50"
definition EB :: rat where "EB = 2 ^ 60"
definition ZB :: rat where "ZB = 2 ^ 70"
definition YB :: rat where "YB = 2 ^ 80"

fun Size_loop :: "rat \<Rightarrow> rat list \<Rightarrow> string" where
  "Size_loop b [] = fmt_2f b"
| "Size_loop b (i # rest) = (if b \<ge> i then fmt_2f (f64_div b i) else Size_loop b rest)"

definition ByteSize_Size :: "rat \<Rightarrow> string" where
  "ByteSize_Size b = Size_loop b [YB, ZB, EB, PB, TB, GB, MB, KB]"

definition ByteSize_Unit :: "rat \<Rightarrow> string" where
  "ByteSize_Unit b =
     (if b \<ge> YB then ''YB''
      else if b \<ge> ZB then ''ZB''
      else if b \<ge> EB then ''EB''
      else if b \<ge> PB then ''PB''
      else if b \<ge> TB then ''TB''
      else if b \<ge> GB then ''GB''
      else if b \<ge> MB then ''MB''
      else if b \<ge> KB then ''KB''
      else ''B'')"

definition MaxInt64 :: uint64 where
  "MaxInt64 = 0x7FFFFFFFFFFFFFFF"

definition printSize :: "uint64 \<Rightarrow> string" where
  "printSize bytes =
     (if bytes \<ge> MaxInt64 then ''unlimited'' else ByteSize_Size (f64_of_uint64 bytes))"

definition printUnit :: "uint64 \<Rightarrow> string" where
  "printUnit bytes =
     (if bytes \<ge> MaxInt64 then [] else ByteSize_Unit (f64_of_uint64 bytes))"

text \<open>
  The units of the specification in ascending order, each 1024 times the one before;
  \<open>unitFactor k\<close> is the factor of the unit at index \<open>k\<close>.
\<close>

definition unit_names :: "string list" where
  "unit_names = [''B'', ''KB'', ''MB'', ''GB'', ''TB'', ''PB'', ''EB'', ''ZB'', ''YB'']"

definition unitFactor :: "nat \<Rightarrow> rat" where
  "unitFactor k = 1024 ^ k"

definition toMegabytes :: "uint64 \<Rightarrow> rat" where
  "toMegabytes bytes = f64_div (f64_of_uint64 bytes) (2 ^ 20)"

definition getMemoryUsage :: "ContainerStats list \<Rightarrow> string" where
  "getMemoryUsage stats =
     (if length stats = 0 then ''0.0''
      else fmt_2f (toMegabytes (Usage (stats_Memory (last stats)))))"

section \<open>Filesystem percentage\<close>

text \<open>
  \<^verbatim>\<open>uint64((float64(used) / float64(limit)) * 100)\<close>.  With a zero limit the quotient is
  an infinity or a NaN, which \<^verbatim>\<open>uint64\<close> cannot hold.
\<close>

definition getFsUsagePercent :: "uint64 \<Rightarrow> uint64 \<Rightarrow> fault + uint64" where
  "getFsUsagePercent limit used =
     (if limit = 0 then Inl FloatToIntRange
      else uint64_of_f64 (f64_mul (f64_div (f64_of_uint64 used) (f64_of_uint64 limit)) 100))"

text \<open>The specification's formula: \<open>floor (used * 100 / limit)\<close> on unbounded naturals.\<close>

definition FsUsagePercent_spec :: "nat \<Rightarrow> nat \<Rightarrow> nat" where
  "FsUsagePercent_spec limit used = (used * 100) div limit"

section \<open>Strings\<close>

text \<open>
  \<^verbatim>\<open>strings.Split(s, sep)\<close> with a one-byte separator: the pieces between the
  separators, one more than there are separators (a single empty piece for the empty
  string).  \<^verbatim>\<open>strings.Join(elems, sep)\<close> is \<open>join\<close>.
\<close>

fun split_on :: "char \<Rightarrow> string \<Rightarrow> string list" where
  "split_on c [] = [[]]"
| "split_on c (x # xs) =
     (if x = c then [] # split_on c xs
      else (case split_on c xs of [] \<Rightarrow> [[x]] | w # ws \<Rightarrow> (x # w) # ws))"

fun join :: "string \<Rightarrow> string list \<Rightarrow> string" where
  "join sep [] = []"
| "join sep [x] = x"
| "join sep (x # y # ys) = x @ sep @ join sep (y # ys)"

text \<open>
  \<^verbatim>\<open>strconv.Atoi\<close>, that is \<^verbatim>\<open>ParseInt(s, 10, 0)\<close>: an optional sign, then one or
  more decimal digits; a syntax error or a value outside the 64-bit \<^verbatim>\<open>int\<close> is an
  error (\<open>None\<close>).
\<close>

definition is_digit :: "char \<Rightarrow> bool" where
  "is_digit c = (48 \<le> (of_char c :: nat) \<and> (of_char c :: nat) \<le> 57)"

fun digits_val :: "int \<Rightarrow> string \<Rightarrow> int" where
  "digits_val acc [] = acc"
| "digits_val acc (c # cs) = digits_val (acc * 10 + (of_char c - 48)) cs"

definition ParseUint :: "string \<Rightarrow> int option" where
  "ParseUint s = (if s = [] \<or> \<not> list_all is_digit s then None else Some (digits_val 0 s))"

definition Atoi :: "string \<Rightarrow> int option" where
  "Atoi s =
     (case s of
        [] \<Rightarrow> None
      | c # cs \<Rightarrow>
          (let neg = (c = CHR ''-'');
               ds = (if c = CHR ''+'' \<or> c = CHR ''-'' then cs else s)
           in case ParseUint ds of
                None \<Rightarrow> None
              | Some un \<Rightarrow>
                  if \<not> neg \<and> un \<ge> 2 ^ 63 then None
                  else if neg \<and> un > 2 ^ 63 then None
                  else Some (if neg then - un else un)))"

section \<open>Active cores\<close>

text \<open>
  \<^verbatim>\<open>map[int]bool\<close> is a partial map; a lookup of a missing key yields \<^verbatim>\<open>false\<close>.
  The counter of \<^verbatim>\<open>for i := start; i <= end; i++\<close> is a 64-bit \<^verbatim>\<open>int\<close>:
  \<^verbatim>\<open>i++\<close> wraps around, so the loop need not end, and the loop is a partial function
  whose value \<open>None\<close> stands for a run that never returns.
\<close>

definition wrap_int64 :: "int \<Rightarrow> int" where
  "wrap_int64 x = (x + 2 ^ 63) mod 2 ^ 64 - 2 ^ 63"

partial_function (option) range_loop ::
    "int \<Rightarrow> int \<Rightarrow> (int \<rightharpoonup> bool) \<Rightarrow> (int \<rightharpoonup> bool) option" where
  "range_loop i e activeCores =
     (if i \<le> e then range_loop (wrap_int64 (i + 1)) e (activeCores(i \<mapsto> True))
      else Some activeCores)"

declare range_loop.simps [code]

definition core_entry :: "(int \<rightharpoonup> bool) \<Rightarrow> string \<Rightarrow> (int \<rightharpoonup> bool) option" where
  "core_entry activeCores corebits =
     (let cores = split_on CHR ''-'' corebits
      in if length cores = 1 then
           (case Atoi (cores ! 0) of
              None \<Rightarrow> Some activeCores
            | Some index \<Rightarrow> Some (activeCores(index \<mapsto> True)))
         else if length cores = 2 then
           (case Atoi (cores ! 0) of
              None \<Rightarrow> Some activeCores
            | Some start \<Rightarrow>
                (case Atoi (cores ! 1) of
                   None \<Rightarrow> Some activeCores
                 | Some e \<Rightarrow> range_loop start e activeCores))
         else Some activeCores)"

fun cores_loop :: "(int \<rightharpoonup> bool) \<Rightarrow> string list \<Rightarrow> (int \<rightharpoonup> bool) option" where
  "cores_loop activeCores [] = Some activeCores"
| "cores_loop activeCores (corebits # rest) =
     (case core_entry activeCores corebits of
        None \<Rightarrow> None
      | Some activeCores' \<Rightarrow> cores_loop activeCores' rest)"

definition getActiveCores :: "string \<Rightarrow> (int \<rightharpoonup> bool) option" where
  "getActiveCores maskstr = cores_loop Map.empty (split_on CHR '','' maskstr)"

text \<open>\<^verbatim>\<open>activeCores[i]\<close>: the stored value, \<^verbatim>\<open>false\<close> for a missing key.\<close>

definition lookup_core :: "(int \<rightharpoonup> bool) \<Rightarrow> int \<Rightarrow> bool" where
  "lookup_core activeCores i = (case activeCores i of None \<Rightarrow> False | Some b \<Rightarrow> b)"

definition core_span :: "(int \<rightharpoonup> bool) \<Rightarrow> nat \<Rightarrow> string" where
  "core_span activeCores i =
     (let coreClass = (if lookup_core activeCores (int i) then ''active-cpu'' else ''inactive-cpu'')
      in ''<span class='' @ [CHR 0x22] @ coreClass @ [CHR 0x22] @ ''>'' @ show_int (int i) @ ''</span>'')"

function mask_loop :: "(int \<rightharpoonup> bool) \<Rightarrow> nat \<Rightarrow> nat \<Rightarrow> string list \<Rightarrow> string list" where
  "mask_loop activeCores numCores i masks =
     (if i < numCores
      then mask_loop activeCores numCores (i + 1) (masks[i := core_span activeCores i])
      else masks)"
  by pat_completeness auto
termination
  by (relation "measure (\<lambda>(a, n, i, m). n - i)") auto

declare mask_loop.simps [simp del]

text \<open>
  \<open>printMask_spans\<close> is the slice \<^verbatim>\<open>masks\<close> when the loop of \<^verbatim>\<open>printMask\<close> has
  ended; \<open>printMask\<close> joins it.  \<^verbatim>\<open>make\<close> panics on a negative length before the
  mask is parsed.
\<close>

definition printMask_spans :: "string \<Rightarrow> int \<Rightarrow> (fault + string list) option" where
  "printMask_spans maskstr numCores =
     (if numCores < 0 then Some (Inl NegativeLen)
      else case getActiveCores maskstr of
             None \<Rightarrow> None
           | Some activeCores \<Rightarrow>
               Some (Inr (mask_loop activeCores (nat numCores) 0 (replicate (nat numCores) []))))"

definition printMask :: "string \<Rightarrow> int \<Rightarrow> (fault + string) option" where
  "printMask maskstr numCores =
     (case printMask_spans maskstr numCores of
        None \<Rightarrow> None
      | Some (Inl f) \<Rightarrow> Some (Inl f)
      | Some (Inr masks) \<Rightarrow> Some (Inr (join ''&nbsp;'' masks)))"

text \<open>
  The rendering of entry \<open>i\<close> of the core-activity mask, active or inactive.
\<close>

definition span_text :: "bool \<Rightarrow> nat \<Rightarrow> string" where
  "span_text active i =
     ''<span class='' @ [CHR 0x22] @ (if active then ''active-cpu'' else ''inactive-cpu'')
       @ [CHR 0x22] @ ''>'' @ show_int (int i) @ ''</span>''"

text \<open>
  The specification's \<open>ParseCoreMask\<close>, in its words: every comma-separated entry that
  is a single integer gives that integer, every entry \<open>start-end\<close> of two integers gives
  the inclusive range, every other entry gives nothing.  An integer token is what
  \<^const>\<open>Atoi\<close> accepts.
\<close>

definition entry_cores :: "string \<Rightarrow> int set" where
  "entry_cores corebits =
     (case map Atoi (split_on CHR ''-'' corebits) of
        [Some index] \<Rightarrow> {index}
      | [Some start, Some e] \<Rightarrow> {start..e}
      | _ \<Rightarrow> {})"

definition ParseCoreMask_spec :: "string \<Rightarrow> int set" where
  "ParseCoreMask_spec maskstr =
     (\<Union>corebits \<in> set (split_on CHR '','' maskstr). entry_cores corebits)"

text \<open>
  An entry on which the range loop cannot end: a range \<open>start-end\<close> of two integers with
  \<open>start \<le> end\<close> whose end is the greatest \<^verbatim>\<open>int\<close>.
\<close>

definition endless_entry :: "string \<Rightarrow> bool" where
  "endless_entry corebits =
     (case map Atoi (split_on CHR ''-'' corebits) of
        [Some start, Some e] \<Rightarrow> start \<le> e \<and> e = 2 ^ 63 - 1
      | _ \<Rightarrow> False)"

text \<open>
  An integer token in the sense of the specification: an optional sign and one or more
  decimal digits, of any size.
\<close>

definition integer_token :: "string \<Rightarrow> int option" where
  "integer_token s =
     (case s of
        [] \<Rightarrow> None
      | c # cs \<Rightarrow>
          (case ParseUint (if c = CHR ''+'' \<or> c = CHR ''-'' then cs else s) of
             None \<Rightarrow> None
           | Some un \<Rightarrow> Some (if c = CHR ''-'' then - un else un)))"

section \<open>Paths\<close>

text \<open>
  \<^verbatim>\<open>path.Clean\<close> of Go's library, by its documented rules: empty and \<^verbatim>\<open>.\<close> elements
  are dropped; a \<^verbatim>\<open>..\<close> element removes the element before it, is dropped at the root
  of a rooted path, and is kept at the start of a relative one; the result is \<^verbatim>\<open>.\<close>
  when nothing is left.  \<open>clean_elems\<close> holds the elements written so far.
\<close>

fun clean_elems :: "bool \<Rightarrow> string list \<Rightarrow> string list \<Rightarrow> string list" where
  "clean_elems rooted out [] = out"
| "clean_elems rooted out (e # es) =
     (if e = [] \<or> e = ''.'' then clean_elems rooted out es
      else if e = ''..'' then
        (if out \<noteq> [] \<and> last out \<noteq> ''..'' then clean_elems rooted (butlast out) es
         else if \<not> rooted then clean_elems rooted (out @ [''..'']) es
         else clean_elems rooted out es)
      else clean_elems rooted (out @ [e]) es)"

definition path_Clean :: "string \<Rightarrow> string" where
  "path_Clean p =
     (if p = [] then ''.''
      else let rooted = (hd p = CHR ''/'');
               out = clean_elems rooted [] (split_on CHR ''/'' p);
               s = (if rooted then ''/'' else []) @ join ''/'' out
           in if s = [] then ''.'' else s)"

text \<open>
  \<^verbatim>\<open>path.Join\<close>: the elements from the first non-empty one on, joined by slashes and
  cleaned; the empty string when every element is empty.
\<close>

fun path_Join :: "string list \<Rightarrow> string" where
  "path_Join [] = []"
| "path_Join (e # es) = (if e \<noteq> [] then path_Clean (join ''/'' (e # es)) else path_Join es)"

section \<open>The page\<close>

definition ContainersPage :: string where
  "ContainersPage = ''/containers/''"

text \<open>
  Modelled from the spec: the struct \<^verbatim>\<open>link\<close> of the package, declared in another file:
  a breadcrumb or child entry, its display text and its link path.
\<close>

record link =
  Text :: string
  Link :: string

text \<open>
  The loop over \<^verbatim>\<open>pathParts\<close> from index 1 that appends the parent containers;
  \<^verbatim>\<open>pathParts[1:i+1]\<close> is \<open>drop 1 (take (i + 1) pathParts)\<close>.
\<close>

function parents_loop :: "string list \<Rightarrow> nat \<Rightarrow> link list \<Rightarrow> link list" where
  "parents_loop pathParts i parentContainers =
     (if i < length pathParts then
        (if pathParts ! i = [] then parents_loop pathParts (i + 1) parentContainers
         else parents_loop pathParts (i + 1)
                (parentContainers @
                   [\<lparr>Text = pathParts ! i,
                     Link = path_Join [ContainersPage,
                                       path_Join (drop 1 (take (i + 1) pathParts))]\<rparr>]))
      else parentContainers)"
  by pat_completeness auto
termination
  by (relation "measure (\<lambda>(p, i, acc). length p - i)") auto

declare parents_loop.simps [simp del]

definition parentContainers :: "string \<Rightarrow> link list" where
  "parentContainers name =
     parents_loop (split_on CHR ''/'' name) 1 [\<lparr>Text = ''root'', Link = ContainersPage\<rparr>]"

text \<open>
  Modelled from the spec: the interface \<^verbatim>\<open>manager.Manager\<close>, the types
  \<^verbatim>\<open>ContainerReference\<close> and \<^verbatim>\<open>ContainerInfo\<close> of the package \<^verbatim>\<open>info\<close> and the struct
  \<^verbatim>\<open>pageData\<close> of the package, none of them declared in the source file.  The two calls
  of the manager are functions that return an error or a value: the container-info fetch
  takes the name and the number of samples asked for, and yields the reference, the spec,
  the sample window and the children of the container.  The display payload has the
  fields that the source fills.  A Go \<^verbatim>\<open>error\<close> is held as its message.
\<close>

type_synonym error = string

record ContainerReference =
  ref_Name :: string
  Aliases :: "string list"

record ContainerInfo =
  info_Ref :: ContainerReference
  Subcontainers :: "ContainerReference list"
  info_Spec :: ContainerSpec
  info_Stats :: "ContainerStats list"

record Manager =
  GetContainerInfo :: "string \<Rightarrow> nat \<Rightarrow> error + ContainerInfo"
  GetMachineInfo :: "error + MachineInfo"

record pageData =
  DisplayName :: string
  ContainerName :: string
  ParentContainers :: "link list"
  pd_Subcontainers :: "link list"
  pd_Spec :: ContainerSpec
  pd_Stats :: "ContainerStats list"
  pd_MachineInfo :: MachineInfo
  ResourcesAvailable :: bool
  CpuAvailable :: bool
  MemoryAvailable :: bool
  NetworkAvailable :: bool
  FsAvailable :: bool

text \<open>
  \<^verbatim>\<open>fmt.Errorf("Failed to get container %q with error: %v", containerName, err)\<close>.
  The quoting of \<^verbatim>\<open>%q\<close> (\<^verbatim>\<open>strconv.Quote\<close>) is a parameter.
\<close>

definition Errorf_get_container :: "(string \<Rightarrow> string) \<Rightarrow> string \<Rightarrow> error \<Rightarrow> error" where
  "Errorf_get_container quote containerName err =
     ''Failed to get container '' @ quote containerName @ '' with error: '' @ err"

text \<open>
  \<open>serveContainersPage\<close> returns the error of the Go function (\<open>None\<close> for \<^verbatim>\<open>nil\<close>)
  and the data handed to the template, if the template is reached.  An error of the
  template is logged and dropped by the source, so it does not appear.  The function
  \<^verbatim>\<open>getContainerDisplayName\<close> lives in another file of the package and is a parameter.
  \<^verbatim>\<open>u.Path[len(ContainersPage)-1:]\<close> panics on a path shorter than 11 bytes.
\<close>

definition serveContainersPage ::
    "(string \<Rightarrow> string) \<Rightarrow> (ContainerReference \<Rightarrow> string) \<Rightarrow> Manager \<Rightarrow> string
       \<Rightarrow> fault + (error option \<times> pageData option)" where
  "serveContainersPage quote getContainerDisplayName m path =
     (if length path < length ContainersPage - 1 then Inl SliceBounds
      else
        let containerName = drop (length ContainersPage - 1) path
        in case GetContainerInfo m containerName 60 of
             Inl err \<Rightarrow> Inr (Some (Errorf_get_container quote containerName err), None)
           | Inr cont \<Rightarrow>
               (let displayName = getContainerDisplayName (info_Ref cont)
                in case GetMachineInfo m of
                     Inl err \<Rightarrow> Inr (Some err, None)
                   | Inr machineInfo \<Rightarrow>
                       Inr (None, Some
                         \<lparr>DisplayName = displayName,
                          ContainerName = ref_Name (info_Ref cont),
                          ParentContainers = parentContainers (ref_Name (info_Ref cont)),
                          pd_Subcontainers =
                            map (\<lambda>sub. \<lparr>Text = getContainerDisplayName sub,
                                         Link = path_Join [ContainersPage, ref_Name sub]\<rparr>)
                                (Subcontainers cont),
                          pd_Spec = info_Spec cont,
                          pd_Stats = info_Stats cont,
                          pd_MachineInfo = machineInfo,
                          ResourcesAvailable =
                            (HasCpu (info_Spec cont) \<or> HasMemory (info_Spec cont)
                             \<or> HasNetwork (info_Spec cont) \<or> HasFilesystem (info_Spec cont)),
                          CpuAvailable = HasCpu (info_Spec cont),
                          MemoryAvailable = HasMemory (info_Spec cont),
                          NetworkAvailable = HasNetwork (info_Spec cont),
                          FsAvailable = HasFilesystem (info_Spec cont)\<rparr>)))"

text \<open>
  Sample collaborators: the quoting of a string of plain printable characters, a manager
  that knows no container, and a manager whose machine info fails.
\<close>

definition quote_plain :: "string \<Rightarrow> string" where
  "quote_plain s = [CHR 0x22] @ s @ [CHR 0x22]"

definition unknown_container_manager :: Manager where
  "unknown_container_manager =
     \<lparr>GetContainerInfo = (\<lambda>name numStats. Inl ''NotFound''),
      GetMachineInfo = Inr (mk_machine 0)\<rparr>"

definition no_machine_manager :: Manager where
  "no_machine_manager =
     \<lparr>GetContainerInfo = (\<lambda>name numStats.
         Inr \<lparr>info_Ref = \<lparr>ref_Name = name, Aliases = []\<rparr>, Subcontainers = [],
              info_Spec = mk_spec 0, info_Stats = []\<rparr>),
      GetMachineInfo = Inl ''no machine info''\<rparr>"

section \<open>Machine integers\<close>

lemma sint_small: "unat (w::uint64) < 2 ^ 63 \<Longrightarrow> sint w = int (unat w)"
proof -
  assume a: "unat w < 2 ^ 63"
  have "int (unat w) < int (2 ^ 63)" using a by (simp only: of_nat_less_iff)
  then have "uint w < 2 ^ 63" by (simp only: uint_nat of_nat_power of_nat_numeral)
  moreover have "- (2 ^ 63) \<le> uint w" by (rule order_trans[of _ 0]) simp_all
  ultimately have "signed_take_bit 63 (uint w) = uint w"
    by (intro signed_take_bit_int_eq_self)
  then show ?thesis by (simp add: sint_uint)
qed

lemma saturated_limit:
  "unat (if (l::uint64) > c then c else l) = min (unat l) (unat c)"
  by (auto simp: word_less_nat_alt min_def word_le_nat_alt)

section \<open>Memory percentages: results\<close>

lemma toMemoryPercent_exact:
  assumes "0 < min (unat (Limit (spec_Memory spec))) (unat (MemoryCapacity machine))"
    and "unat usage * 100 < 2 ^ 64"
    and "unat usage * 100 div min (unat (Limit (spec_Memory spec))) (unat (MemoryCapacity machine))
           < 2 ^ 63"
  shows "toMemoryPercent usage spec machine =
     Inr (MemoryPercent_spec (unat usage) (unat (Limit (spec_Memory spec)))
            (unat (MemoryCapacity machine)))"
proof -
  define l where "l = (if Limit (spec_Memory spec) > MemoryCapacity machine
                        then MemoryCapacity machine else Limit (spec_Memory spec))"
  have ul: "unat l = min (unat (Limit (spec_Memory spec))) (unat (MemoryCapacity machine))"
    unfolding l_def by (rule saturated_limit)
  have l0: "l \<noteq> 0" using assms(1) ul by (auto simp: unat_eq_0)
  have um: "unat (usage * 100) = unat usage * 100"
    using assms(2) by (simp add: unat_word_ariths)
  have ud: "unat ((usage * 100) div l) = unat usage * 100 div unat l"
    by (simp add: unat_div um)
  have "sint ((usage * 100) div l) = int (unat ((usage * 100) div l))"
    using assms(3) ud ul by (intro sint_small) simp
  then have "sint ((usage * 100) div l) =
      MemoryPercent_spec (unat usage) (unat (Limit (spec_Memory spec)))
        (unat (MemoryCapacity machine))"
    by (simp add: ud ul MemoryPercent_spec_def)
  then show ?thesis using l0 by (simp add: toMemoryPercent_def Let_def l_def)
qed

text \<open>
  C1, as stated for every usage, fails where \<^verbatim>\<open>usage * 100\<close> wraps around: with
  usage 184467440737095517 and limit and capacity 100 the product is 84 modulo \<open>2^64\<close>
  and the code returns 0, not the floor of the specification.
\<close>

theorem toMemoryPercent_wraps_counterexample:
  "toMemoryPercent 184467440737095517 (mk_spec 100) (mk_machine 100) = Inr 0
   \<and> toMemoryPercent 184467440737095517 (mk_spec 100) (mk_machine 100)
       \<noteq> Inr (MemoryPercent_spec 184467440737095517 100 100)"
  by (simp add: toMemoryPercent_def MemoryPercent_spec_def)

text \<open>
  C1 (amended): when the effective limit \<open>min limit capacity\<close> is positive, the product
  \<open>usage * 100\<close> stays below \<open>2^64\<close> and the quotient stays below \<open>2^63\<close>,
  \<^verbatim>\<open>toMemoryPercent\<close> returns \<open>floor (usage * 100 / min limit capacity)\<close>; in particular
  it returns 50 for usage 50, limit 100, capacity 1000, and 5 for usage 50, limit 2000,
  capacity 1000.
\<close>

theorem toMemoryPercent_floor:
  assumes "0 < min (unat (Limit (spec_Memory spec))) (unat (MemoryCapacity machine))"
    and "unat usage * 100 < 2 ^ 64"
    and "unat usage * 100 div min (unat (Limit (spec_Memory spec))) (unat (MemoryCapacity machine))
           < 2 ^ 63"
  shows "toMemoryPercent usage spec machine =
           Inr (int (unat usage * 100
                     div min (unat (Limit (spec_Memory spec))) (unat (MemoryCapacity machine))))
         \<and> toMemoryPercent 50 (mk_spec 100) (mk_machine 1000) = Inr 50
         \<and> toMemoryPercent 50 (mk_spec 2000) (mk_machine 1000) = Inr 5"
proof -
  have "toMemoryPercent usage spec machine =
          Inr (MemoryPercent_spec (unat usage) (unat (Limit (spec_Memory spec)))
                 (unat (MemoryCapacity machine)))"
    using assms by (rule toMemoryPercent_exact)
  moreover have "toMemoryPercent 50 (mk_spec 100) (mk_machine 1000) = Inr 50"
    by (simp add: toMemoryPercent_def)
  moreover have "toMemoryPercent 50 (mk_spec 2000) (mk_machine 1000) = Inr 5"
    by (simp add: toMemoryPercent_def)
  ultimately show ?thesis by (simp add: MemoryPercent_spec_def)
qed

theorem toMemoryPercent_floor_witness:
  "toMemoryPercent 1048576 (mk_spec 4194304) (mk_machine 3145728) = Inr 33"
  using toMemoryPercent_floor [of "mk_spec 4194304" "mk_machine 3145728" 1048576] by simp

text \<open>
  C2: on an empty sample window \<^verbatim>\<open>getMemoryUsage\<close> returns the string \<^verbatim>\<open>0.0\<close>, the
  three memory percentages return 0 and \<^verbatim>\<open>getFsStats\<close> returns the empty sequence;
  none of them faults, for every spec and machine info.
\<close>

theorem empty_window_zero:
  "getMemoryUsage [] = ''0.0''
   \<and> getMemoryUsagePercent spec [] machine = Inr 0
   \<and> getHotMemoryPercent spec [] machine = Inr 0
   \<and> getColdMemoryPercent spec [] machine = Inr 0
   \<and> getFsStats [] = []"
  by (simp add: getMemoryUsage_def getMemoryUsagePercent_def getHotMemoryPercent_def
      getColdMemoryPercent_def getFsStats_def)

theorem empty_window_zero_witness:
  "getMemoryUsage [] = ''0.0''
   \<and> getMemoryUsagePercent (mk_spec 0) [] (mk_machine 0) = Inr 0
   \<and> getHotMemoryPercent (mk_spec 0) [] (mk_machine 0) = Inr 0
   \<and> getColdMemoryPercent (mk_spec 0) [] (mk_machine 0) = Inr 0
   \<and> getFsStats [] = []"
  using empty_window_zero [of "mk_spec 0" "mk_machine 0"] by simp

section \<open>Floating point: rounding\<close>

lemma pow2_powi: "pow2 e = 2 powi e"
  by (simp add: pow2_def power_int_def power_inverse field_simps)

lemma pow2_pos: "0 < pow2 e"
  by (simp add: pow2_powi zero_less_power_int)

lemma pow2_nonzero: "pow2 e \<noteq> 0"
  using pow2_pos [of e] by simp

declare pow2_pos [simp] pow2_nonzero [simp]

lemma pow2_add: "pow2 (a + b) = pow2 a * pow2 b"
  by (simp add: pow2_powi power_int_add)

lemma pow2_diff: "pow2 (a - b) = pow2 a / pow2 b"
  by (simp add: pow2_powi power_int_diff)

lemma pow2_less: "a < b \<Longrightarrow> pow2 a < pow2 b"
  by (simp add: pow2_powi power_int_strict_increasing)

lemma pow2_le: "a \<le> b \<Longrightarrow> pow2 a \<le> pow2 b"
  by (simp add: pow2_powi power_int_increasing)

lemma pow2_less_iff: "pow2 a < pow2 b \<longleftrightarrow> a < b"
  using pow2_less [of a b] pow2_le [of b a] by (auto simp: not_less [symmetric])

lemma pow2_nat: "0 \<le> e \<Longrightarrow> pow2 e = 2 ^ nat e"
  by (simp add: pow2_def)

lemma pow2_0 [simp]: "pow2 0 = 1"
  by (simp add: pow2_def)

lemma pow2_1 [simp]: "pow2 1 = 2"
  by (simp add: pow2_def)

lemma pow2_plus1: "pow2 (e + 1) = 2 * pow2 e"
  by (simp add: pow2_add)

lemma rne_split:
  obtains f r where "x = of_int f + r" and "0 \<le> r" and "r < 1" and "\<lfloor>x\<rfloor> = f"
    and "rne x = (if r < 1/2 \<or> (r = 1/2 \<and> even f) then f else f + 1)"
proof (rule that [of "\<lfloor>x\<rfloor>" "x - of_int \<lfloor>x\<rfloor>"])
  show "x = of_int \<lfloor>x\<rfloor> + (x - of_int \<lfloor>x\<rfloor>)" by simp
  show "0 \<le> x - of_int \<lfloor>x\<rfloor>" by linarith
  show "x - of_int \<lfloor>x\<rfloor> < 1" by linarith
  show "\<lfloor>x\<rfloor> = \<lfloor>x\<rfloor>" by simp
  show "rne x = (if x - of_int \<lfloor>x\<rfloor> < 1/2 \<or> (x - of_int \<lfloor>x\<rfloor> = 1/2 \<and> even \<lfloor>x\<rfloor>)
                 then \<lfloor>x\<rfloor> else \<lfloor>x\<rfloor> + 1)"
    by (simp add: rne_def Let_def)
qed

lemma rne_cases: "rne x = \<lfloor>x\<rfloor> \<or> rne x = \<lfloor>x\<rfloor> + 1"
  by (simp add: rne_def Let_def)

lemma rne_lower: "x - 1/2 \<le> of_int (rne x)"
proof -
  obtain f r where "x = of_int f + r" "0 \<le> r" "r < 1"
    "rne x = (if r < 1/2 \<or> (r = 1/2 \<and> even f) then f else f + 1)"
    by (rule rne_split)
  then show ?thesis by (auto split: if_splits)
qed

lemma rne_upper: "of_int (rne x) \<le> x + 1/2"
proof -
  obtain f r where "x = of_int f + r" "0 \<le> r" "r < 1"
    "rne x = (if r < 1/2 \<or> (r = 1/2 \<and> even f) then f else f + 1)"
    by (rule rne_split)
  then show ?thesis by (auto split: if_splits)
qed

lemma rne_of_int [simp]: "rne (of_int n) = n"
  by (simp add: rne_def)

lemma rne_mono:
  assumes "x \<le> y"
  shows "rne x \<le> rne y"
proof (cases "\<lfloor>x\<rfloor> < \<lfloor>y\<rfloor>")
  case True
  have "rne x \<le> \<lfloor>x\<rfloor> + 1" using rne_cases [of x] by auto
  also have "\<dots> \<le> \<lfloor>y\<rfloor>" using True by simp
  also have "\<dots> \<le> rne y" using rne_cases [of y] by auto
  finally show ?thesis .
next
  case False
  then have eq: "\<lfloor>x\<rfloor> = \<lfloor>y\<rfloor>" using floor_mono [OF assms] by simp
  obtain f r where x: "x = of_int f + r" "\<lfloor>x\<rfloor> = f"
    "rne x = (if r < 1/2 \<or> (r = 1/2 \<and> even f) then f else f + 1)"
    by (rule rne_split)
  obtain g t where y: "y = of_int g + t" "\<lfloor>y\<rfloor> = g"
    "rne y = (if t < 1/2 \<or> (t = 1/2 \<and> even g) then g else g + 1)"
    by (rule rne_split)
  have fg: "f = g" using eq x(2) y(2) by simp
  have "r \<le> t" using assms x(1) y(1) fg by simp
  then show ?thesis using x(3) y(3) fg by (auto split: if_splits)
qed

lemma ilog2_lower:
  assumes "0 < x"
  shows "pow2 (ilog2 x) \<le> x"
proof (cases "1 \<le> x")
  case True
  define n where "n = \<lfloor>x\<rfloor>"
  have n1: "1 \<le> n" using True by (simp add: n_def le_floor_iff)
  then have b: "2 ^ nat (bitlen n - 1) \<le> n" using bitlen_bounds [of n] by simp
  have k: "0 \<le> bitlen n - 1" using n1 bitlen_ge_iff_power [of 1 n] by simp
  have "pow2 (bitlen n - 1) = of_int (2 ^ nat (bitlen n - 1))"
    using k by (simp add: pow2_nat)
  also have "\<dots> \<le> of_int n" using b by (simp only: of_int_le_iff)
  also have "\<dots> \<le> x" unfolding n_def by linarith
  finally show ?thesis using True by (simp add: ilog2_def n_def)
next
  case False
  define c where "c = \<lceil>1 / x\<rceil>"
  define k where "k = bitlen (c - 1)"
  have x1: "1 < 1 / x" using False assms by (simp add: field_simps)
  have c2: "2 \<le> c" using x1 unfolding c_def by linarith
  then have "c - 1 < 2 ^ nat k" using bitlen_bounds [of "c - 1"] by (simp add: k_def)
  then have ck: "c \<le> 2 ^ nat k" by simp
  have "1 / x \<le> of_int c" unfolding c_def by linarith
  also have "(of_int c :: rat) \<le> of_int (2 ^ nat k)" using ck by (simp only: of_int_le_iff)
  also have "\<dots> = 2 ^ nat k" by simp
  finally have "1 / x \<le> 2 ^ nat k" .
  then have "1 / 2 ^ nat k \<le> x" using assms by (simp add: field_simps)
  moreover have "0 \<le> k" by (simp add: k_def bitlen_nonneg)
  ultimately have "pow2 (- k) \<le> x" 
    by (cases "k = 0") (auto simp: pow2_def)
  then show ?thesis using False by (simp add: ilog2_def c_def k_def)
qed

lemma ilog2_upper:
  assumes "0 < x"
  shows "x < pow2 (ilog2 x + 1)"
proof (cases "1 \<le> x")
  case True
  define n where "n = \<lfloor>x\<rfloor>"
  have n1: "1 \<le> n" using True by (simp add: n_def le_floor_iff)
  then have b: "n < 2 ^ nat (bitlen n)" using bitlen_bounds [of n] by simp
  then have n2: "n + 1 \<le> 2 ^ nat (bitlen n)" by simp
  have "x < of_int (n + 1)" unfolding n_def by linarith
  also have "(of_int (n + 1) :: rat) \<le> of_int (2 ^ nat (bitlen n))"
    using n2 by (simp only: of_int_le_iff)
  also have "\<dots> = 2 ^ nat (bitlen n)" by simp
  finally have "x < 2 ^ nat (bitlen n)" .
  moreover have "pow2 (bitlen n) = 2 ^ nat (bitlen n)" by (simp add: pow2_nat bitlen_nonneg)
  ultimately show ?thesis using True by (simp add: ilog2_def n_def)
next
  case False
  define c where "c = \<lceil>1 / x\<rceil>"
  define k where "k = bitlen (c - 1)"
  have x1: "1 < 1 / x" using False assms by (simp add: field_simps)
  have c2: "2 \<le> c" using x1 unfolding c_def by linarith
  then have b: "2 ^ nat (k - 1) \<le> c - 1" using bitlen_bounds [of "c - 1"] by (simp add: k_def)
  have k1: "1 \<le> k" using c2 bitlen_ge_iff_power [of 1 "c - 1"] by (simp add: k_def)
  have "(2 ^ nat (k - 1) :: rat) = of_int (2 ^ nat (k - 1))" by simp
  also have "\<dots> \<le> of_int (c - 1)" using b by (simp only: of_int_le_iff)
  also have "\<dots> < 1 / x" unfolding c_def by linarith
  finally have "2 ^ nat (k - 1) < 1 / x" .
  then have "x < 1 / 2 ^ nat (k - 1)" using assms by (simp add: field_simps)
  moreover have "pow2 (- k + 1) = 1 / 2 ^ nat (k - 1)"
    using k1 by (cases "k = 1") (auto simp: pow2_def)
  ultimately show ?thesis using False by (simp add: ilog2_def c_def k_def)
qed

lemma ilog2_unique:
  assumes "pow2 e \<le> x" and "x < pow2 (e + 1)"
  shows "ilog2 x = e"
proof -
  have x0: "0 < x" using assms(1) pow2_pos [of e] by linarith
  have "pow2 (ilog2 x) < pow2 (e + 1)" using ilog2_lower [OF x0] assms(2) by linarith
  then have a: "ilog2 x < e + 1" by (simp only: pow2_less_iff)
  have "pow2 e < pow2 (ilog2 x + 1)" using ilog2_upper [OF x0] assms(1) by linarith
  then have b: "e < ilog2 x + 1" by (simp only: pow2_less_iff)
  from a b show ?thesis by simp
qed


lemma pow2_numeral: "pow2 (numeral n) = 2 ^ numeral n"
  by (simp add: pow2_def)

lemma pow2_shift52: "pow2 (e - 52) * 2 ^ 52 = pow2 e"
proof -
  have "pow2 ((e - 52) + 52) = pow2 (e - 52) * pow2 52" by (rule pow2_add)
  then show ?thesis by (simp add: pow2_numeral)
qed

lemma pow2_shift53: "pow2 (e - 52) * 2 ^ 53 = pow2 (e + 1)"
proof -
  have "pow2 ((e - 52) + 53) = pow2 (e - 52) * pow2 53" by (rule pow2_add)
  moreover have "(e - 52) + 53 = e + 1" by simp
  ultimately show ?thesis by (simp add: pow2_numeral)
qed

lemma f64_round_pos:
  "0 < x \<Longrightarrow> f64_round x = of_int (rne (x / pow2 (ilog2 x - 52))) * pow2 (ilog2 x - 52)"
  by (simp add: f64_round_def Let_def)

lemma scaled_range:
  assumes "0 < x"
  shows "2 ^ 52 \<le> x / pow2 (ilog2 x - 52)" and "x / pow2 (ilog2 x - 52) < 2 ^ 53"
proof -
  have d: "pow2 (ilog2 x - 52) * 2 ^ 52 = pow2 (ilog2 x)"
    by (rule pow2_shift52)
  have u: "pow2 (ilog2 x - 52) * 2 ^ 53 = pow2 (ilog2 x + 1)"
    by (rule pow2_shift53)
  show "2 ^ 52 \<le> x / pow2 (ilog2 x - 52)"
    using ilog2_lower [OF assms] d by (simp add: pos_le_divide_eq mult.commute)
  show "x / pow2 (ilog2 x - 52) < 2 ^ 53"
    using ilog2_upper [OF assms] u by (simp add: pos_divide_less_eq mult.commute)
qed

lemma mantissa_range:
  assumes "0 < x"
  shows "2 ^ 52 \<le> rne (x / pow2 (ilog2 x - 52))" and "rne (x / pow2 (ilog2 x - 52)) \<le> 2 ^ 53"
proof -
  have "rne (of_int (2 ^ 52)) \<le> rne (x / pow2 (ilog2 x - 52))"
    using scaled_range(1) [OF assms] by (intro rne_mono) simp
  then show "2 ^ 52 \<le> rne (x / pow2 (ilog2 x - 52))" by (simp only: rne_of_int)
  have "rne (x / pow2 (ilog2 x - 52)) \<le> rne (of_int (2 ^ 53))"
    using scaled_range(2) [OF assms] by (intro rne_mono) simp
  then show "rne (x / pow2 (ilog2 x - 52)) \<le> 2 ^ 53" by (simp only: rne_of_int)
qed

lemma f64_round_range:
  assumes "0 < x"
  shows "pow2 (ilog2 x) \<le> f64_round x" and "f64_round x \<le> pow2 (ilog2 x + 1)"
proof -
  define s where "s = pow2 (ilog2 x - 52)"
  define m where "m = rne (x / s)"
  have s0: "0 < s" by (simp add: s_def)
  have fx: "f64_round x = of_int m * s" using assms by (simp add: f64_round_pos m_def s_def)
  have d: "s * 2 ^ 52 = pow2 (ilog2 x)"
    unfolding s_def by (rule pow2_shift52)
  have u: "s * 2 ^ 53 = pow2 (ilog2 x + 1)"
    unfolding s_def by (rule pow2_shift53)
  have m1: "2 ^ 52 \<le> m" and m2: "m \<le> 2 ^ 53"
    using mantissa_range [OF assms] by (simp_all add: m_def s_def)
  have "(2 ^ 52 :: rat) = of_int (2 ^ 52)" by simp
  also have "\<dots> \<le> of_int m" using m1 by (simp only: of_int_le_iff)
  finally have "2 ^ 52 * s \<le> of_int m * s" using s0 by (simp only: mult_le_cancel_right_pos)
  then show "pow2 (ilog2 x) \<le> f64_round x" using d fx by (simp add: mult.commute)
  have "(of_int m :: rat) \<le> of_int (2 ^ 53)" using m2 by (simp only: of_int_le_iff)
  also have "\<dots> = 2 ^ 53" by simp
  finally have "of_int m * s \<le> 2 ^ 53 * s" using s0 by (simp only: mult_le_cancel_right_pos)
  then show "f64_round x \<le> pow2 (ilog2 x + 1)" using u fx by (simp add: mult.commute)
qed

lemma f64_round_0 [simp]: "f64_round 0 = 0"
  by (simp add: f64_round_def)

lemma f64_round_positive: "0 < x \<Longrightarrow> 0 < f64_round x"
  using f64_round_range(1) [of x] pow2_pos [of "ilog2 x"] by linarith

lemma f64_round_nonneg: "0 \<le> x \<Longrightarrow> 0 \<le> f64_round x"
  using f64_round_positive [of x] by (cases "x = 0") auto

lemma ilog2_mono:
  assumes "0 < x" and "x \<le> y"
  shows "ilog2 x \<le> ilog2 y"
proof -
  have y0: "0 < y" using assms by linarith
  have "pow2 (ilog2 x) < pow2 (ilog2 y + 1)"
    using ilog2_lower [OF assms(1)] ilog2_upper [OF y0] assms(2) by linarith
  then have "ilog2 x < ilog2 y + 1" by (simp only: pow2_less_iff)
  then show ?thesis by simp
qed

lemma f64_round_mono:
  assumes "0 \<le> x" and "x \<le> y"
  shows "f64_round x \<le> f64_round y"
proof (cases "x = 0")
  case True
  then show ?thesis using assms f64_round_nonneg [of y] by simp
next
  case False
  then have x0: "0 < x" using assms by simp
  then have y0: "0 < y" using assms by linarith
  show ?thesis
  proof (cases "ilog2 x = ilog2 y")
    case True
    define s where "s = pow2 (ilog2 x - 52)"
    have s0: "0 < s" by (simp add: s_def)
    have "x / s \<le> y / s" using assms(2) s0 by (simp add: divide_right_mono)
    then have "rne (x / s) \<le> rne (y / s)" by (rule rne_mono)
    then have "(of_int (rne (x / s)) :: rat) \<le> of_int (rne (y / s))" by (simp only: of_int_le_iff)
    then have "of_int (rne (x / s)) * s \<le> of_int (rne (y / s)) * s"
      using s0 by (simp only: mult_le_cancel_right_pos)
    then show ?thesis using x0 y0 True by (simp add: f64_round_pos s_def)
  next
    case False
    then have "ilog2 x + 1 \<le> ilog2 y" using ilog2_mono [OF x0 assms(2)] by simp
    then have "pow2 (ilog2 x + 1) \<le> pow2 (ilog2 y)" by (rule pow2_le)
    then show ?thesis
      using f64_round_range(2) [OF x0] f64_round_range(1) [OF y0] by linarith
  qed
qed

lemma f64_round_exact:
  assumes "0 < m" and "m < 2 ^ 53"
  shows "f64_round (of_int m * pow2 e) = of_int m * pow2 e"
proof -
  define x where "x = (of_int m :: rat) * pow2 e"
  define k where "k = ilog2 x"
  have x0: "0 < x" using assms(1) by (simp add: x_def)
  have "pow2 k \<le> x" unfolding k_def by (rule ilog2_lower [OF x0])
  moreover have "x < 2 ^ 53 * pow2 e"
  proof -
    have "(of_int m :: rat) < of_int (2 ^ 53)" using assms(2) by (simp only: of_int_less_iff)
    then have "(of_int m :: rat) < 2 ^ 53" by simp
    then show ?thesis unfolding x_def by (simp only: mult_less_cancel_right_pos pow2_pos)
  qed
  moreover have "2 ^ 53 * pow2 e = pow2 (e + 53)"
    using pow2_add [of e 53] by (simp add: pow2_numeral mult.commute)
  ultimately have "pow2 k < pow2 (e + 53)" by linarith
  then have ke: "k < e + 53" by (simp only: pow2_less_iff)
  define j where "j = e - k + 52"
  have j0: "0 \<le> j" using ke by (simp add: j_def)
  have "x / pow2 (k - 52) = of_int m * (pow2 e / pow2 (k - 52))" by (simp add: x_def)
  also have "pow2 e / pow2 (k - 52) = pow2 j"
    using pow2_diff [of e "k - 52"] by (simp add: j_def algebra_simps)
  also have "pow2 j = of_int (2 ^ nat j)" using j0 by (simp add: pow2_nat)
  finally have "x / pow2 (k - 52) = of_int (m * 2 ^ nat j)" by simp
  then have "rne (x / pow2 (k - 52)) = m * 2 ^ nat j" by (simp only: rne_of_int)
  then have "f64_round x = of_int (m * 2 ^ nat j) * pow2 (k - 52)"
    using x0 by (simp add: f64_round_pos k_def)
  also have "\<dots> = of_int m * (pow2 j * pow2 (k - 52))" using j0 by (simp add: pow2_nat)
  also have "pow2 j * pow2 (k - 52) = pow2 e"
    using pow2_add [of j "k - 52"] by (simp add: j_def)
  finally show ?thesis by (simp add: x_def)
qed

lemma f64_round_nat_exact:
  assumes "n < 2 ^ 53"
  shows "f64_round (of_nat n) = of_nat n"
proof (cases "n = 0")
  case True
  then show ?thesis by simp
next
  case False
  have "int n < int (2 ^ 53)" using assms by (simp only: of_nat_less_iff)
  then have "int n < 2 ^ 53" by simp
  then have "f64_round (of_int (int n) * pow2 0) = of_int (int n) * pow2 0"
    using False by (intro f64_round_exact) simp_all
  then show ?thesis by simp
qed

lemma f64_round_idem:
  assumes "0 \<le> x"
  shows "f64_round (f64_round x) = f64_round x"
proof (cases "x = 0")
  case True
  then show ?thesis by simp
next
  case False
  then have x0: "0 < x" using assms by simp
  define s where "s = ilog2 x - 52"
  define m where "m = rne (x / pow2 s)"
  have fx: "f64_round x = of_int m * pow2 s" using x0 by (simp add: f64_round_pos m_def s_def)
  have m1: "2 ^ 52 \<le> m" and m2: "m \<le> 2 ^ 53"
    using mantissa_range [OF x0] by (simp_all add: m_def s_def)
  show ?thesis
  proof (cases "m = 2 ^ 53")
    case True
    have "(of_int m :: rat) * pow2 s = of_int (2 ^ 52) * pow2 (s + 1)"
      by (simp add: True pow2_plus1)
    moreover have "f64_round (of_int (2 ^ 52) * pow2 (s + 1)) = of_int (2 ^ 52) * pow2 (s + 1)"
      by (rule f64_round_exact) simp_all
    ultimately show ?thesis by (simp only: fx)
  next
    case False
    then have "m < 2 ^ 53" using m2 by simp
    moreover have "0 < m" using m1 by simp
    ultimately have "f64_round (of_int m * pow2 s) = of_int m * pow2 s"
      by (intro f64_round_exact)
    then show ?thesis by (simp only: fx)
  qed
qed

section \<open>Percentages: range\<close>

lemma f64_round_1: "f64_round 1 = 1"
  using f64_round_nat_exact [of 1] by simp

lemma f64_round_100: "f64_round 100 = 100"
  using f64_round_nat_exact [of 100] by simp

lemma f64_of_uint64_nonneg: "0 \<le> f64_of_uint64 u"
  unfolding f64_of_uint64_def by (rule f64_round_nonneg) (rule of_nat_0_le_iff)

lemma f64_of_uint64_mono:
  assumes "unat u \<le> unat v"
  shows "f64_of_uint64 u \<le> f64_of_uint64 v"
  unfolding f64_of_uint64_def
proof (rule f64_round_mono)
  show "(0::rat) \<le> of_nat (unat u)" by (rule of_nat_0_le_iff)
  show "(of_nat (unat u) :: rat) \<le> of_nat (unat v)" using assms by (simp only: of_nat_le_iff)
qed

lemma f64_of_uint64_ge_1: "u \<noteq> 0 \<Longrightarrow> 1 \<le> f64_of_uint64 u"
proof -
  assume "u \<noteq> 0"
  then have "1 \<le> unat u" by (simp add: unat_gt_0 Suc_le_eq)
  then have "(of_nat 1 :: rat) \<le> of_nat (unat u)" by (simp only: of_nat_le_iff)
  then have "(1 :: rat) \<le> of_nat (unat u)" by (simp only: of_nat_1)
  then have "f64_round 1 \<le> f64_round (of_nat (unat u))"
    by (intro f64_round_mono) simp_all
  then show ?thesis by (simp only: f64_round_1 f64_of_uint64_def)
qed

lemma uint64_of_f64_small:
  assumes "0 \<le> p" and "p \<le> 100"
  shows "\<exists>w. uint64_of_f64 p = Inr w \<and> unat w \<le> 100 \<and> int (unat w) = \<lfloor>p\<rfloor>"
proof -
  have t0: "0 \<le> \<lfloor>p\<rfloor>" using assms(1) by simp
  have t1: "\<lfloor>p\<rfloor> \<le> 100" using assms(2) by (simp add: floor_le_iff)
  have "uint (word_of_int \<lfloor>p\<rfloor> :: uint64) = \<lfloor>p\<rfloor>"
    using t0 t1 by (simp add: uint_word_of_int take_bit_int_eq_self)
  then have u: "int (unat (word_of_int \<lfloor>p\<rfloor> :: uint64)) = \<lfloor>p\<rfloor>" by simp
  then have "unat (word_of_int \<lfloor>p\<rfloor> :: uint64) \<le> 100" using t1 by linarith
  moreover have "uint64_of_f64 p = Inr (word_of_int \<lfloor>p\<rfloor>)"
    using assms(1) t0 t1 by (simp add: uint64_of_f64_def Let_def)
  ultimately show ?thesis using u by simp
qed

lemma getFsUsagePercent_le_100:
  assumes "limit \<noteq> 0" and "unat used \<le> unat limit"
  shows "\<exists>p. getFsUsagePercent limit used = Inr p \<and> unat p \<le> 100"
proof -
  define a where "a = f64_of_uint64 used"
  define b where "b = f64_of_uint64 limit"
  have a0: "0 \<le> a" by (simp add: a_def f64_of_uint64_nonneg)
  have ab: "a \<le> b" unfolding a_def b_def using assms(2) by (rule f64_of_uint64_mono)
  have b1: "1 \<le> b" unfolding b_def using assms(1) by (rule f64_of_uint64_ge_1)
  have q0: "0 \<le> a / b" using a0 b1 by simp
  have q1: "a / b \<le> 1" using ab b1 by simp
  define q where "q = f64_div a b"
  have fq0: "0 \<le> q" unfolding q_def f64_div_def using q0 by (rule f64_round_nonneg)
  have "f64_round (a / b) \<le> f64_round 1" using q0 q1 by (rule f64_round_mono)
  then have fq1: "q \<le> 1" by (simp add: q_def f64_div_def f64_round_1)
  define p where "p = f64_mul q 100"
  have p0: "0 \<le> p" unfolding p_def f64_mul_def using fq0 by (intro f64_round_nonneg) simp
  have "f64_round (q * 100) \<le> f64_round 100" using fq0 fq1 by (intro f64_round_mono) simp_all
  then have p1: "p \<le> 100" by (simp add: p_def f64_mul_def f64_round_100)
  obtain w where "uint64_of_f64 p = Inr w" "unat w \<le> 100"
    using uint64_of_f64_small [OF p0 p1] by blast
  then show ?thesis
    using assms(1) by (simp add: getFsUsagePercent_def p_def q_def a_def b_def)
qed

lemma toMemoryPercent_le_100:
  assumes "0 < min (unat (Limit (spec_Memory spec))) (unat (MemoryCapacity machine))"
    and "unat usage \<le> min (unat (Limit (spec_Memory spec))) (unat (MemoryCapacity machine))"
  shows "\<exists>p. toMemoryPercent usage spec machine = Inr p \<and> 0 \<le> p \<and> p \<le> 100"
proof -
  define l where "l = (if Limit (spec_Memory spec) > MemoryCapacity machine
                        then MemoryCapacity machine else Limit (spec_Memory spec))"
  have ul: "unat l = min (unat (Limit (spec_Memory spec))) (unat (MemoryCapacity machine))"
    unfolding l_def by (rule saturated_limit)
  have l0: "l \<noteq> 0" using assms(1) ul by (auto simp: unat_eq_0)
  have "unat (usage * 100) \<le> unat usage * 100"
    by (simp add: unat_word_ariths)
  also have "\<dots> \<le> unat l * 100" using assms(2) ul by simp
  finally have "unat (usage * 100) div unat l \<le> (unat l * 100) div unat l"
    by (rule div_le_mono)
  also have "\<dots> = 100" using assms(1) ul by simp
  finally have q: "unat ((usage * 100) div l) \<le> 100" by (simp add: unat_div)
  then have "unat ((usage * 100) div l) < 2 ^ 63" by simp
  then have "sint ((usage * 100) div l) = int (unat ((usage * 100) div l))"
    by (rule sint_small)
  moreover have "int (unat ((usage * 100) div l)) \<le> 100" using q by linarith
  moreover have "0 \<le> int (unat ((usage * 100) div l))" by (rule of_nat_0_le_iff)
  ultimately have "0 \<le> sint ((usage * 100) div l) \<and> sint ((usage * 100) div l) \<le> 100"
    by (simp only:)
  then show ?thesis using l0 by (simp add: toMemoryPercent_def Let_def l_def)
qed

text \<open>
  C8: under normal input, that is a positive effective limit and a numerator (usage,
  working set, usage minus working set with the working set at most the usage, or used
  bytes) that does not exceed the limit, each of \<^verbatim>\<open>getMemoryUsagePercent\<close>,
  \<^verbatim>\<open>getHotMemoryPercent\<close>, \<^verbatim>\<open>getColdMemoryPercent\<close> and \<^verbatim>\<open>getFsUsagePercent\<close>
  returns an integer between 0 and 100.
\<close>

theorem percentages_within_0_100:
  "(0 < min (unat (Limit (spec_Memory spec))) (unat (MemoryCapacity machine))
      \<and> (stats \<noteq> [] \<longrightarrow> unat (Usage (stats_Memory (last stats)))
              \<le> min (unat (Limit (spec_Memory spec))) (unat (MemoryCapacity machine)))
      \<longrightarrow> (\<exists>p. getMemoryUsagePercent spec stats machine = Inr p \<and> 0 \<le> p \<and> p \<le> 100))
   \<and> (0 < min (unat (Limit (spec_Memory spec))) (unat (MemoryCapacity machine))
      \<and> (stats \<noteq> [] \<longrightarrow> unat (WorkingSet (stats_Memory (last stats)))
              \<le> min (unat (Limit (spec_Memory spec))) (unat (MemoryCapacity machine)))
      \<longrightarrow> (\<exists>p. getHotMemoryPercent spec stats machine = Inr p \<and> 0 \<le> p \<and> p \<le> 100))
   \<and> (0 < min (unat (Limit (spec_Memory spec))) (unat (MemoryCapacity machine))
      \<and> (stats \<noteq> [] \<longrightarrow>
              unat (WorkingSet (stats_Memory (last stats))) \<le> unat (Usage (stats_Memory (last stats)))
              \<and> unat (Usage (stats_Memory (last stats))) - unat (WorkingSet (stats_Memory (last stats)))
                  \<le> min (unat (Limit (spec_Memory spec))) (unat (MemoryCapacity machine)))
      \<longrightarrow> (\<exists>p. getColdMemoryPercent spec stats machine = Inr p \<and> 0 \<le> p \<and> p \<le> 100))
   \<and> (0 < unat limit \<and> unat used \<le> unat limit
      \<longrightarrow> (\<exists>p. getFsUsagePercent limit used = Inr p \<and> unat p \<le> 100))"
proof (intro conjI impI)
  assume h: "0 < min (unat (Limit (spec_Memory spec))) (unat (MemoryCapacity machine))
      \<and> (stats \<noteq> [] \<longrightarrow> unat (Usage (stats_Memory (last stats)))
              \<le> min (unat (Limit (spec_Memory spec))) (unat (MemoryCapacity machine)))"
  then have e: "0 < min (unat (Limit (spec_Memory spec))) (unat (MemoryCapacity machine))"
    by (rule conjunct1)
  show "\<exists>p. getMemoryUsagePercent spec stats machine = Inr p \<and> 0 \<le> p \<and> p \<le> 100"
  proof (cases "stats = []")
    case True
    then show ?thesis by (simp add: getMemoryUsagePercent_def)
  next
    case False
    then show ?thesis
      using toMemoryPercent_le_100 [OF e, of "Usage (stats_Memory (last stats))"] h
      by (simp add: getMemoryUsagePercent_def)
  qed
next
  assume h: "0 < min (unat (Limit (spec_Memory spec))) (unat (MemoryCapacity machine))
      \<and> (stats \<noteq> [] \<longrightarrow> unat (WorkingSet (stats_Memory (last stats)))
              \<le> min (unat (Limit (spec_Memory spec))) (unat (MemoryCapacity machine)))"
  then have e: "0 < min (unat (Limit (spec_Memory spec))) (unat (MemoryCapacity machine))"
    by (rule conjunct1)
  show "\<exists>p. getHotMemoryPercent spec stats machine = Inr p \<and> 0 \<le> p \<and> p \<le> 100"
  proof (cases "stats = []")
    case True
    then show ?thesis by (simp add: getHotMemoryPercent_def)
  next
    case False
    then show ?thesis
      using toMemoryPercent_le_100 [OF e, of "WorkingSet (stats_Memory (last stats))"] h
      by (simp add: getHotMemoryPercent_def)
  qed
next
  assume h: "0 < min (unat (Limit (spec_Memory spec))) (unat (MemoryCapacity machine))
      \<and> (stats \<noteq> [] \<longrightarrow>
              unat (WorkingSet (stats_Memory (last stats))) \<le> unat (Usage (stats_Memory (last stats)))
              \<and> unat (Usage (stats_Memory (last stats))) - unat (WorkingSet (stats_Memory (last stats)))
                  \<le> min (unat (Limit (spec_Memory spec))) (unat (MemoryCapacity machine)))"
  then have e: "0 < min (unat (Limit (spec_Memory spec))) (unat (MemoryCapacity machine))"
    by (rule conjunct1)
  show "\<exists>p. getColdMemoryPercent spec stats machine = Inr p \<and> 0 \<le> p \<and> p \<le> 100"
  proof (cases "stats = []")
    case True
    then show ?thesis by (simp add: getColdMemoryPercent_def)
  next
    case False
    define u where "u = Usage (stats_Memory (last stats))"
    define w where "w = WorkingSet (stats_Memory (last stats))"
    have wu: "unat w \<le> unat u" using h False by (simp add: u_def w_def)
    then have "w \<le> u" by (simp add: word_le_nat_alt)
    then have "unat (u - w) = unat u - unat w" by (rule unat_sub)
    then have "unat (u - w) \<le> min (unat (Limit (spec_Memory spec))) (unat (MemoryCapacity machine))"
      using h False by (simp add: u_def w_def)
    then show ?thesis
      using toMemoryPercent_le_100 [OF e, of "u - w"] False
      by (simp add: getColdMemoryPercent_def Let_def u_def w_def)
  qed
next
  assume "0 < unat limit \<and> unat used \<le> unat limit"
  then show "\<exists>p. getFsUsagePercent limit used = Inr p \<and> unat p \<le> 100"
    using getFsUsagePercent_le_100 [of limit used] by (simp add: unat_gt_0)
qed

theorem percentages_within_0_100_witness:
  "(\<exists>p. getMemoryUsagePercent (mk_spec 2000) [mk_stats 700 300] (mk_machine 1000) = Inr p
        \<and> 0 \<le> p \<and> p \<le> 100)
   \<and> (\<exists>p. getHotMemoryPercent (mk_spec 2000) [mk_stats 700 300] (mk_machine 1000) = Inr p
        \<and> 0 \<le> p \<and> p \<le> 100)
   \<and> (\<exists>p. getColdMemoryPercent (mk_spec 2000) [mk_stats 700 300] (mk_machine 1000) = Inr p
        \<and> 0 \<le> p \<and> p \<le> 100)
   \<and> (\<exists>p. getFsUsagePercent 3 1 = Inr p \<and> unat p \<le> 100)"
  using percentages_within_0_100
    [of "mk_spec 2000" "mk_machine 1000" "[mk_stats 700 300]" 3 1]
  by simp

section \<open>Filesystem percentage: results\<close>

text \<open>
  C7 at limit 100 and used 29: the quotient \<open>29 / 100\<close> rounds to a float below
  \<open>0.29\<close>, its product with 100 rounds to a float below 29, and the truncation yields 28,
  while \<open>floor (29 * 100 / 100) = 29\<close>.
\<close>

theorem getFsUsagePercent_29_of_100:
  "getFsUsagePercent 100 29 = Inr 28 \<and> FsUsagePercent_spec 100 29 = 29
   \<and> getFsUsagePercent 107374182400 31138512896 = Inr 28
   \<and> FsUsagePercent_spec 107374182400 31138512896 = 29"
proof -
  have a: "f64_round 29 = 29" using f64_round_nat_exact [of 29] by simp
  have a': "f64_round 31138512896 = 31138512896"
    using f64_round_nat_exact [of 31138512896] by simp
  have b': "f64_round 107374182400 = 107374182400"
    using f64_round_nat_exact [of 107374182400] by simp
  have c: "\<lfloor>f64_round (f64_round (29/100) * 100)\<rfloor> = 28" by code_simp
  have d: "0 \<le> f64_round (f64_round (29/100) * 100)" by code_simp
  have "getFsUsagePercent 100 29 = Inr 28"
    by (simp add: getFsUsagePercent_def f64_of_uint64_def a f64_round_100 c d f64_mul_def
        f64_div_def uint64_of_f64_def)
  moreover have "getFsUsagePercent 107374182400 31138512896 = Inr 28"
    by (simp add: getFsUsagePercent_def f64_of_uint64_def a' b' c d f64_mul_def
        f64_div_def uint64_of_f64_def)
  ultimately show ?thesis by (simp add: FsUsagePercent_spec_def)
qed

lemma getFsUsagePercent_50_of_200: "getFsUsagePercent 200 50 = Inr 25"
proof -
  have a: "f64_round 50 = 50" using f64_round_nat_exact [of 50] by simp
  have b: "f64_round 200 = 200" using f64_round_nat_exact [of 200] by simp
  have c: "f64_round (1/4) = 1/4" by code_simp
  have d: "f64_round 25 = 25" using f64_round_nat_exact [of 25] by simp
  show ?thesis
    by (simp add: getFsUsagePercent_def f64_of_uint64_def a b c d f64_mul_def
        f64_div_def uint64_of_f64_def)
qed

section \<open>Byte sizes: results\<close>

lemma MaxInt64_le_iff: "MaxInt64 \<le> b \<longleftrightarrow> 9223372036854775807 \<le> unat b"
  by (simp add: MaxInt64_def word_le_nat_alt)

text \<open>
  C4: for every unsigned byte count at or above the maximum signed 64-bit value
  \<open>2^63 - 1 = 9223372036854775807\<close>, \<^verbatim>\<open>printSize\<close> returns \<^verbatim>\<open>unlimited\<close> and
  \<^verbatim>\<open>printUnit\<close> returns the empty string.
\<close>

theorem unlimited_sentinel:
  assumes "9223372036854775807 \<le> unat b"
  shows "printSize b = ''unlimited'' \<and> printUnit b = []"
  using assms by (simp add: printSize_def printUnit_def MaxInt64_le_iff)

theorem unlimited_sentinel_witness:
  "printSize 9223372036854775807 = ''unlimited'' \<and> printUnit 9223372036854775807 = []
   \<and> printSize 18446744073709551615 = ''unlimited'' \<and> printUnit 18446744073709551615 = []"
  using unlimited_sentinel [of 9223372036854775807]
        unlimited_sentinel [of 18446744073709551615]
  by simp

lemma f64_round_repr:
  assumes "0 < x"
  shows "\<exists>m e. 0 < m \<and> m < 2 ^ 53 \<and> f64_round x = of_int m * pow2 e"
proof -
  define s where "s = ilog2 x - 52"
  define m where "m = rne (x / pow2 s)"
  have fx: "f64_round x = of_int m * pow2 s" using assms by (simp add: f64_round_pos m_def s_def)
  have m1: "2 ^ 52 \<le> m" and m2: "m \<le> 2 ^ 53"
    using mantissa_range [OF assms] by (simp_all add: m_def s_def)
  show ?thesis
  proof (cases "m = 2 ^ 53")
    case True
    have "(of_int m :: rat) * pow2 s = of_int (2 ^ 52) * pow2 (s + 1)"
      by (simp add: True pow2_plus1)
    then have "f64_round x = of_int (2 ^ 52) * pow2 (s + 1)" by (simp only: fx)
    moreover have "(0::int) < 2 ^ 52" "(2::int) ^ 52 < 2 ^ 53" by simp_all
    ultimately show ?thesis by blast
  next
    case False
    then have "m < 2 ^ 53" using m2 by simp
    moreover have "0 < m" using m1 by simp
    ultimately show ?thesis using fx by blast
  qed
qed

lemma f64_div_pow2_exact:
  assumes "0 \<le> x"
  shows "f64_div (f64_round x) (2 ^ j) = f64_round x / 2 ^ j"
proof (cases "x = 0")
  case True
  then show ?thesis by (simp add: f64_div_def)
next
  case False
  then have "0 < x" using assms by simp
  then obtain m e where m: "0 < m" "m < 2 ^ 53" and fx: "f64_round x = of_int m * pow2 e"
    using f64_round_repr by blast
  have "pow2 (e - int j) = pow2 e / pow2 (int j)" by (rule pow2_diff)
  also have "pow2 (int j) = 2 ^ j" by (simp add: pow2_nat)
  finally have "f64_round x / 2 ^ j = of_int m * pow2 (e - int j)" by (simp add: fx)
  moreover have "f64_round (of_int m * pow2 (e - int j)) = of_int m * pow2 (e - int j)"
    using m by (rule f64_round_exact)
  ultimately show ?thesis by (simp add: f64_div_def)
qed

lemma f64_round_error:
  assumes "0 < x"
  shows "\<bar>f64_round x - x\<bar> \<le> x / 2 ^ 53"
proof -
  define s where "s = pow2 (ilog2 x - 52)"
  define m where "m = rne (x / s)"
  have s0: "0 < s" by (simp add: s_def)
  have fx: "f64_round x = of_int m * s" using assms by (simp add: f64_round_pos m_def s_def)
  have "\<bar>of_int m - x / s\<bar> \<le> 1 / 2"
    using rne_lower [of "x / s"] rne_upper [of "x / s"] unfolding m_def by linarith
  then have "\<bar>of_int m - x / s\<bar> * s \<le> 1 / 2 * s"
    using s0 by (simp only: mult_le_cancel_right_pos)
  moreover have "\<bar>of_int m - x / s\<bar> * s = \<bar>of_int m * s - x\<bar>"
  proof -
    have "\<bar>of_int m - x / s\<bar> * s = \<bar>(of_int m - x / s) * s\<bar>"
      using s0 by (simp add: abs_mult)
    also have "(of_int m - x / s) * s = of_int m * s - x"
      using s0 by (simp add: field_simps)
    finally show ?thesis .
  qed
  ultimately have e: "\<bar>f64_round x - x\<bar> \<le> s / 2" by (simp add: fx)
  have "s * 2 ^ 52 = pow2 (ilog2 x)" unfolding s_def by (rule pow2_shift52)
  then have "s * 2 ^ 52 \<le> x" using ilog2_lower [OF assms] by simp
  then have "s / 2 \<le> x / 2 ^ 53" by simp
  then show ?thesis using e by linarith
qed

lemma rne_error: "\<bar>of_int (rne y) / 100 - y / 100\<bar> \<le> 1 / 200"
  using rne_lower [of y] rne_upper [of y] by linarith


lemma f64_round_power2: "f64_round (2 ^ j) = 2 ^ j"
proof -
  have "f64_round (of_int 1 * pow2 (int j)) = of_int 1 * pow2 (int j)"
    by (rule f64_round_exact) simp_all
  then show ?thesis by (simp add: pow2_nat)
qed

lemma unitFactor_power2: "unitFactor k = 2 ^ (10 * k)"
  by (simp add: unitFactor_def power_mult)

lemma f64_round_unitFactor: "f64_round (unitFactor k) = unitFactor k"
  by (simp only: unitFactor_power2 f64_round_power2)

lemma unitFactor_pos: "0 < unitFactor k"
  by (simp add: unitFactor_def)

lemma unit_selection:
  assumes "0 \<le> f" and "f < ZB"
  shows "\<exists>k\<le>6. ByteSize_Unit f = unit_names ! k
           \<and> ByteSize_Size f = fmt_2f (if k = 0 then f else f64_div f (2 ^ (10 * k)))
           \<and> (0 < k \<longrightarrow> unitFactor k \<le> f) \<and> f < unitFactor (k + 1)"
proof -
  consider "f < KB" | "KB \<le> f" "f < MB" | "MB \<le> f" "f < GB" | "GB \<le> f" "f < TB"
    | "TB \<le> f" "f < PB" | "PB \<le> f" "f < EB" | "EB \<le> f" by linarith
  then show ?thesis
  proof cases
    case 1
    then have "ByteSize_Unit f = unit_names ! 0
           \<and> ByteSize_Size f = fmt_2f (if (0::nat) = 0 then f else f64_div f (2 ^ (10 * 0)))
           \<and> (0 < (0::nat) \<longrightarrow> unitFactor 0 \<le> f) \<and> f < unitFactor (0 + 1)"
      by (simp add: ByteSize_Unit_def ByteSize_Size_def unit_names_def unitFactor_def
          KB_def MB_def GB_def TB_def PB_def EB_def ZB_def YB_def)
    then show ?thesis by blast
  next
    case 2
    then have "ByteSize_Unit f = unit_names ! 1
           \<and> ByteSize_Size f = fmt_2f (if (1::nat) = 0 then f else f64_div f (2 ^ (10 * 1)))
           \<and> (0 < (1::nat) \<longrightarrow> unitFactor 1 \<le> f) \<and> f < unitFactor (1 + 1)"
      by (simp add: ByteSize_Unit_def ByteSize_Size_def unit_names_def unitFactor_def
          KB_def MB_def GB_def TB_def PB_def EB_def ZB_def YB_def)
    then show ?thesis by (intro exI [of _ 1]) simp
  next
    case 3
    then have "ByteSize_Unit f = unit_names ! 2
           \<and> ByteSize_Size f = fmt_2f (if (2::nat) = 0 then f else f64_div f (2 ^ (10 * 2)))
           \<and> (0 < (2::nat) \<longrightarrow> unitFactor 2 \<le> f) \<and> f < unitFactor (2 + 1)"
      by (simp add: ByteSize_Unit_def ByteSize_Size_def unit_names_def unitFactor_def
          KB_def MB_def GB_def TB_def PB_def EB_def ZB_def YB_def)
    then show ?thesis by (intro exI [of _ 2]) simp
  next
    case 4
    then have "ByteSize_Unit f = unit_names ! 3
           \<and> ByteSize_Size f = fmt_2f (if (3::nat) = 0 then f else f64_div f (2 ^ (10 * 3)))
           \<and> (0 < (3::nat) \<longrightarrow> unitFactor 3 \<le> f) \<and> f < unitFactor (3 + 1)"
      by (simp add: ByteSize_Unit_def ByteSize_Size_def unit_names_def unitFactor_def
          KB_def MB_def GB_def TB_def PB_def EB_def ZB_def YB_def)
    then show ?thesis by (intro exI [of _ 3]) simp
  next
    case 5
    then have "ByteSize_Unit f = unit_names ! 4
           \<and> ByteSize_Size f = fmt_2f (if (4::nat) = 0 then f else f64_div f (2 ^ (10 * 4)))
           \<and> (0 < (4::nat) \<longrightarrow> unitFactor 4 \<le> f) \<and> f < unitFactor (4 + 1)"
      by (simp add: ByteSize_Unit_def ByteSize_Size_def unit_names_def unitFactor_def
          KB_def MB_def GB_def TB_def PB_def EB_def ZB_def YB_def)
    then show ?thesis by (intro exI [of _ 4]) simp
  next
    case 6
    then have "ByteSize_Unit f = unit_names ! 5
           \<and> ByteSize_Size f = fmt_2f (if (5::nat) = 0 then f else f64_div f (2 ^ (10 * 5)))
           \<and> (0 < (5::nat) \<longrightarrow> unitFactor 5 \<le> f) \<and> f < unitFactor (5 + 1)"
      by (simp add: ByteSize_Unit_def ByteSize_Size_def unit_names_def unitFactor_def
          KB_def MB_def GB_def TB_def PB_def EB_def ZB_def YB_def)
    then show ?thesis by (intro exI [of _ 5]) simp
  next
    case 7
    then have "ByteSize_Unit f = unit_names ! 6
           \<and> ByteSize_Size f = fmt_2f (if (6::nat) = 0 then f else f64_div f (2 ^ (10 * 6)))
           \<and> (0 < (6::nat) \<longrightarrow> unitFactor 6 \<le> f) \<and> f < unitFactor (6 + 1)"
      using assms(2)
      by (simp add: ByteSize_Unit_def ByteSize_Size_def unit_names_def unitFactor_def
          KB_def MB_def GB_def TB_def PB_def EB_def ZB_def YB_def)
    then show ?thesis by (intro exI [of _ 6]) simp
  qed
qed


lemma unitFactor_mono: "j \<le> k \<Longrightarrow> unitFactor j \<le> unitFactor k"
  by (simp add: unitFactor_def power_increasing)

lemma dec2_hundreds: "0 \<le> n \<Longrightarrow> dec2 (n * 100) = show_dec n @ ''.00''"
  by (simp add: dec2_def digit_char_def)

lemma fmt_2f_nonneg: "0 \<le> y \<Longrightarrow> fmt_2f y = dec2 (rne (y * 100))"
  by (simp add: fmt_2f_def)

lemma scaled_value:
  assumes "unat b < 9223372036854775807"
  shows "\<exists>k\<le>6. printUnit b = unit_names ! k
           \<and> printSize b = dec2 (rne (f64_of_uint64 b / unitFactor k * 100))
           \<and> (0 < k \<longrightarrow> unitFactor k \<le> f64_of_uint64 b)
           \<and> f64_of_uint64 b < unitFactor (k + 1)"
proof -
  define n where "n = unat b"
  define fb where "fb = f64_of_uint64 b"
  have fbn: "fb = f64_round (of_nat n)" by (simp only: fb_def n_def f64_of_uint64_def)
  have nb: "\<not> MaxInt64 \<le> b" using assms by (simp add: MaxInt64_le_iff)
  have ps: "printSize b = ByteSize_Size fb" and pu: "printUnit b = ByteSize_Unit fb"
    using nb by (simp_all add: printSize_def printUnit_def fb_def)
  have fb0: "0 \<le> fb" unfolding fb_def by (rule f64_of_uint64_nonneg)
  have "n \<le> 2 ^ 63" using assms by (simp add: n_def)
  then have "(of_nat n :: rat) \<le> of_nat (2 ^ 63)" by (simp only: of_nat_le_iff)
  then have "(of_nat n :: rat) \<le> 2 ^ 63" by simp
  then have "f64_round (of_nat n) \<le> f64_round (2 ^ 63)" by (intro f64_round_mono) simp_all
  then have "fb \<le> 2 ^ 63" by (simp only: fbn f64_round_power2)
  then have fbz: "fb < ZB" by (simp add: ZB_def)
  obtain k where k: "k \<le> 6" "ByteSize_Unit fb = unit_names ! k"
      "ByteSize_Size fb = fmt_2f (if k = 0 then fb else f64_div fb (2 ^ (10 * k)))"
      "0 < k \<longrightarrow> unitFactor k \<le> fb" "fb < unitFactor (k + 1)"
    using unit_selection [OF fb0 fbz] by blast
  have "f64_div fb (2 ^ (10 * k)) = fb / 2 ^ (10 * k)"
    unfolding fbn by (rule f64_div_pow2_exact) simp
  then have "(if k = 0 then fb else f64_div fb (2 ^ (10 * k))) = fb / unitFactor k"
    by (simp add: unitFactor_power2)
  moreover have "0 \<le> fb / unitFactor k" using fb0 unitFactor_pos [of k] by simp
  ultimately have "ByteSize_Size fb = dec2 (rne (fb / unitFactor k * 100))"
    using k(3) by (simp add: fmt_2f_nonneg)
  then show ?thesis using k ps pu unfolding fb_def by auto
qed


lemma f64_of_uint64_error:
  "\<bar>f64_of_uint64 b - of_nat (unat b)\<bar> \<le> of_nat (unat b) / 2 ^ 53"
proof (cases "unat b = 0")
  case True
  then show ?thesis by (simp only: f64_of_uint64_def) simp
next
  case False
  then have "(0::rat) < of_nat (unat b)" by (simp only: of_nat_0_less_iff)
  then show ?thesis unfolding f64_of_uint64_def by (rule f64_round_error)
qed

lemma f64_of_uint64_exact:
  "unat b < 2 ^ 53 \<Longrightarrow> f64_of_uint64 b = of_nat (unat b)"
  unfolding f64_of_uint64_def by (rule f64_round_nat_exact)

lemma f64_of_uint64_ge_unitFactor:
  assumes "unitFactor k \<le> of_nat (unat b)"
  shows "unitFactor k \<le> f64_of_uint64 b"
proof -
  have "f64_round (unitFactor k) \<le> f64_round (of_nat (unat b))"
    using assms unitFactor_pos [of k] by (intro f64_round_mono) simp_all
  then show ?thesis by (simp only: f64_round_unitFactor f64_of_uint64_def)
qed

lemma f64_of_uint64_below_EB:
  assumes "unat b < 2 ^ 60 - 64"
  shows "f64_of_uint64 b < 2 ^ 60"
proof -
  have "unat b \<le> 1152921504606846911" using assms by simp
  then have "(of_nat (unat b) :: rat) \<le> of_nat 1152921504606846911" by (simp only: of_nat_le_iff)
  then have "(of_nat (unat b) :: rat) \<le> 1152921504606846911" by (simp only: of_nat_numeral)
  then have "f64_round (of_nat (unat b)) \<le> f64_round 1152921504606846911"
    by (intro f64_round_mono) (rule of_nat_0_le_iff)
  moreover have "f64_round 1152921504606846911 = 1152921504606846848" by code_simp
  ultimately have "f64_of_uint64 b \<le> 1152921504606846848" by (simp only: f64_of_uint64_def)
  then show ?thesis by simp
qed

lemma f64_of_uint64_window_EB:
  assumes "2 ^ 60 - 64 \<le> unat b" and "unat b < 2 ^ 60"
  shows "f64_of_uint64 b = 2 ^ 60"
proof -
  have "1152921504606846912 \<le> unat b" using assms(1) by simp
  then have "(of_nat 1152921504606846912 :: rat) \<le> of_nat (unat b)" by (simp only: of_nat_le_iff)
  then have "(1152921504606846912 :: rat) \<le> of_nat (unat b)" by (simp only: of_nat_numeral)
  then have "f64_round 1152921504606846912 \<le> f64_round (of_nat (unat b))"
    by (intro f64_round_mono) simp_all
  moreover have "f64_round 1152921504606846912 = 1152921504606846976" by code_simp
  ultimately have lo: "1152921504606846976 \<le> f64_of_uint64 b" by (simp only: f64_of_uint64_def)
  have "unat b \<le> 2 ^ 60" using assms(2) by simp
  then have "(of_nat (unat b) :: rat) \<le> of_nat (2 ^ 60)" by (simp only: of_nat_le_iff)
  then have "(of_nat (unat b) :: rat) \<le> 2 ^ 60" by (simp only: of_nat_power of_nat_numeral)
  then have "f64_round (of_nat (unat b)) \<le> f64_round (2 ^ 60)"
    by (intro f64_round_mono) (rule of_nat_0_le_iff)
  then have "f64_of_uint64 b \<le> 2 ^ 60" by (simp only: f64_of_uint64_def f64_round_power2)
  then show ?thesis using lo by simp
qed


lemma unitFactor_6: "unitFactor 6 = 2 ^ 60"
  by (simp add: unitFactor_def)

lemma unitFactor_5: "unitFactor 5 = 2 ^ 50"
  by (simp add: unitFactor_def)

lemma unitFactor_1: "unitFactor 1 = 1024"
  by (simp add: unitFactor_def)

lemma unitFactor_0: "unitFactor 0 = 1"
  by (simp add: unitFactor_def)

lemma rne_numeral: "rne (numeral n) = numeral n"
  using rne_of_int [of "numeral n"] by simp

lemma printSize_1536: "printSize 1536 = ''1.50'' \<and> printUnit 1536 = ''KB''"
proof -
  have a: "f64_of_uint64 1536 = 1536"
    using f64_of_uint64_exact [of 1536] by simp
  have b: "f64_div 1536 KB = 3 / 2" unfolding f64_div_def KB_def by code_simp
  have "ByteSize_Size 1536 = fmt_2f (f64_div 1536 KB)"
    by (simp add: ByteSize_Size_def YB_def ZB_def EB_def PB_def TB_def GB_def MB_def KB_def)
  then have "ByteSize_Size 1536 = ''1.50''"
    by (simp add: b fmt_2f_def rne_numeral dec2_def show_dec.simps digit_char_def)
  moreover have "ByteSize_Unit 1536 = ''KB''"
    by (simp add: ByteSize_Unit_def YB_def ZB_def EB_def PB_def TB_def GB_def MB_def KB_def)
  ultimately show ?thesis by (simp add: printSize_def printUnit_def MaxInt64_le_iff a)
qed

text \<open>
  C3, as stated, fails at 1152921504606846975 bytes, one below \<open>2^60\<close>: the conversion
  to \<^verbatim>\<open>float64\<close> rounds the count up to \<open>2^60\<close>, so the unit is \<^verbatim>\<open>EB\<close> and the
  value \<^verbatim>\<open>1.00\<close>, although the threshold of \<^verbatim>\<open>EB\<close> exceeds the count; and the
  smaller unit \<^verbatim>\<open>PB\<close> also gives a scaled value of at least 1.
\<close>

theorem printUnit_rounds_up_counterexample:
  "printUnit 1152921504606846975 = ''EB'' \<and> printUnit 1152921504606846975 = unit_names ! 6
   \<and> printSize 1152921504606846975 = ''1.00''
   \<and> \<not> unitFactor 6 \<le> 1152921504606846975
   \<and> 1 \<le> 1152921504606846975 / unitFactor 5"
proof -
  have a: "f64_of_uint64 1152921504606846975 = 2 ^ 60"
    by (rule f64_of_uint64_window_EB) simp_all
  have "ByteSize_Size (2 ^ 60) = fmt_2f (f64_div (2 ^ 60) EB)"
    by (simp add: ByteSize_Size_def YB_def ZB_def EB_def PB_def TB_def GB_def MB_def KB_def)
  also have "f64_div (2 ^ 60) EB = 1" by (simp add: f64_div_def EB_def f64_round_1)
  finally have "ByteSize_Size (2 ^ 60) = ''1.00''"
    by (simp add: fmt_2f_def rne_numeral dec2_def show_dec.simps digit_char_def)
  moreover have "ByteSize_Unit (2 ^ 60) = ''EB''"
    by (simp add: ByteSize_Unit_def YB_def ZB_def EB_def PB_def TB_def GB_def MB_def KB_def)
  ultimately show ?thesis
    by (simp add: printSize_def printUnit_def MaxInt64_le_iff a unit_names_def unitFactor_def)
qed

text \<open>
  C3 (amended): for every byte count \<open>b\<close> below \<open>2^63 - 1\<close>, with \<open>fb\<close> the count
  converted to \<^verbatim>\<open>float64\<close> (within \<open>b / 2^53\<close> of \<open>b\<close>), \<^verbatim>\<open>printUnit\<close> returns the
  largest unit from B to EB whose threshold is at most \<open>fb\<close>, no larger unit having
  its threshold at most \<open>fb\<close>, and \<^verbatim>\<open>printSize\<close> renders \<open>fb\<close> divided by the factor
  of that unit to two decimal places (round half to even); the rendered value times the
  factor is within \<open>factor / 200 + b / 2^53\<close> of \<open>b\<close>.  Outside the window
  \<open>2^60 - 64 \<le> b < 2^60\<close> the unit is the largest whose threshold is at most \<open>b\<close>
  itself; inside it the unit is EB and the value \<^verbatim>\<open>1.00\<close>.  For \<open>b < 1024\<close> the unit is
  B and the value is the byte count followed by \<^verbatim>\<open>.00\<close>.
\<close>

theorem printSize_printUnit_scaling:
  assumes "unat b < 9223372036854775807"
  shows "\<exists>k v. k \<le> 6
      \<and> printUnit b = unit_names ! k \<and> printSize b = dec2 v
      \<and> v = rne (f64_of_uint64 b / unitFactor k * 100)
      \<and> (0 < k \<longrightarrow> unitFactor k \<le> f64_of_uint64 b) \<and> f64_of_uint64 b < unitFactor (k + 1)
      \<and> \<bar>of_int v / 100 * unitFactor k - of_nat (unat b)\<bar>
            \<le> unitFactor k / 200 + of_nat (unat b) / 2 ^ 53
      \<and> (unat b < 2 ^ 60 - 64 \<or> 2 ^ 60 \<le> unat b \<longrightarrow>
            (0 < k \<longrightarrow> unitFactor k \<le> of_nat (unat b)) \<and> of_nat (unat b) < unitFactor (k + 1))
      \<and> (2 ^ 60 - 64 \<le> unat b \<and> unat b < 2 ^ 60 \<longrightarrow> k = 6 \<and> v = 100)
      \<and> (unat b < 1024 \<longrightarrow> k = 0 \<and> printSize b = show_dec (int (unat b)) @ ''.00'')"
proof -
  define n where "n = unat b"
  define fb where "fb = f64_of_uint64 b"
  obtain k where k6: "k \<le> 6" and pu: "printUnit b = unit_names ! k"
    and ps: "printSize b = dec2 (rne (fb / unitFactor k * 100))"
    and lo: "0 < k \<longrightarrow> unitFactor k \<le> fb" and hi: "fb < unitFactor (k + 1)"
    using scaled_value [OF assms] unfolding fb_def by blast
  define t where "t = unitFactor k"
  define v where "v = rne (fb / t * 100)"
  have t0: "0 < t" unfolding t_def by (rule unitFactor_pos)
  have err: "\<bar>fb - of_nat n\<bar> \<le> of_nat n / 2 ^ 53"
    unfolding fb_def n_def by (rule f64_of_uint64_error)
  have tol: "\<bar>of_int v / 100 * t - of_nat n\<bar> \<le> t / 200 + of_nat n / 2 ^ 53"
  proof -
    have "\<bar>of_int v / 100 - fb / t * 100 / 100\<bar> \<le> 1 / 200"
      unfolding v_def by (rule rne_error)
    then have "\<bar>of_int v / 100 - fb / t\<bar> \<le> 1 / 200" by simp
    then have "\<bar>of_int v / 100 - fb / t\<bar> * t \<le> 1 / 200 * t"
      using t0 by (simp only: mult_le_cancel_right_pos)
    moreover have "\<bar>of_int v / 100 - fb / t\<bar> * t = \<bar>of_int v / 100 * t - fb\<bar>"
    proof -
      have "\<bar>of_int v / 100 - fb / t\<bar> * t = \<bar>(of_int v / 100 - fb / t) * t\<bar>"
        using t0 by (simp add: abs_mult)
      also have "(of_int v / 100 - fb / t) * t = of_int v / 100 * t - fb"
        using t0 by (simp add: field_simps)
      finally show ?thesis .
    qed
    ultimately have "\<bar>of_int v / 100 * t - fb\<bar> \<le> t / 200" by simp
    then show ?thesis using err by linarith
  qed
  have thr: "(0 < k \<longrightarrow> t \<le> of_nat n) \<and> of_nat n < unitFactor (k + 1)"
    if w: "n < 2 ^ 60 - 64 \<or> 2 ^ 60 \<le> n"
  proof (intro conjI impI)
    assume kpos: "0 < k"
    show "t \<le> of_nat n"
    proof (rule ccontr)
      assume "\<not> t \<le> of_nat n"
      then have nt: "of_nat n < t" by simp
      have tfb: "t \<le> fb" using lo kpos by (simp add: t_def)
      show False
      proof (cases "k = 6")
        case True
        then have "of_nat n < (2 ^ 60 :: rat)" using nt by (simp add: t_def unitFactor_6)
        then have "(of_nat n :: rat) < of_nat (2 ^ 60)" by simp
        then have "n < 2 ^ 60" by (simp only: of_nat_less_iff)
        then have "n < 2 ^ 60 - 64" using w by simp
        then have "fb < 2 ^ 60" unfolding fb_def n_def by (rule f64_of_uint64_below_EB)
        then show False using tfb True by (simp add: t_def unitFactor_6)
      next
        case False
        then have "k \<le> 5" using k6 by simp
        then have "t \<le> 2 ^ 50" unfolding t_def using unitFactor_mono [of k 5]
          by (simp add: unitFactor_5)
        then have "of_nat n < (2 ^ 50 :: rat)" using nt by linarith
        then have "(of_nat n :: rat) < of_nat (2 ^ 50)" by simp
        then have "n < 2 ^ 50" by (simp only: of_nat_less_iff)
        then have "n < 2 ^ 53" by simp
        then have "fb = of_nat n" unfolding fb_def n_def by (rule f64_of_uint64_exact)
        then show False using nt tfb by simp
      qed
    qed
  next
    show "of_nat n < unitFactor (k + 1)"
    proof (rule ccontr)
      assume "\<not> of_nat n < unitFactor (k + 1)"
      then have "unitFactor (k + 1) \<le> of_nat n" by simp
      then have "unitFactor (k + 1) \<le> fb"
        unfolding fb_def n_def by (rule f64_of_uint64_ge_unitFactor)
      then show False using hi by simp
    qed
  qed
  have win: "k = 6 \<and> v = 100" if w: "2 ^ 60 - 64 \<le> n \<and> n < 2 ^ 60"
  proof -
    have fbe: "fb = 2 ^ 60" unfolding fb_def using w
      by (intro f64_of_uint64_window_EB) (simp_all add: n_def)
    have "k = 6"
    proof (rule ccontr)
      assume "k \<noteq> 6"
      then have "k + 1 \<le> 6" using k6 by simp
      then have "unitFactor (k + 1) \<le> unitFactor 6" by (rule unitFactor_mono)
      then show False using hi fbe by (simp add: unitFactor_6)
    qed
    moreover have "rne (of_int 100) = 100" by (rule rne_of_int)
    ultimately show ?thesis by (simp add: v_def t_def fbe unitFactor_6)
  qed
  have small: "k = 0 \<and> printSize b = show_dec (int n) @ ''.00''" if w: "n < 1024"
  proof -
    have "n < 2 ^ 53" using w by simp
    then have fbe: "fb = of_nat n" unfolding fb_def n_def by (rule f64_of_uint64_exact)
    have k0: "k = 0"
    proof (rule ccontr)
      assume "k \<noteq> 0"
      then have "unitFactor 1 \<le> unitFactor k" by (intro unitFactor_mono) simp
      then have "1024 \<le> unitFactor k" by (simp only: unitFactor_1)
      moreover have "unitFactor k \<le> fb" using lo \<open>k \<noteq> 0\<close> by simp
      moreover have "(of_nat n :: rat) < of_nat 1024" using w by (simp only: of_nat_less_iff)
      then have "(of_nat n :: rat) < 1024" by (simp only: of_nat_numeral)
      ultimately show False using fbe by linarith
    qed
    have "fb / unitFactor k * 100 = of_int (int n * 100)"
      by (simp add: k0 unitFactor_0 fbe)
    then have "rne (fb / unitFactor k * 100) = int n * 100" by (simp only: rne_of_int)
    then have "printSize b = dec2 (int n * 100)" using ps by simp
    then show ?thesis using k0 by (simp add: dec2_hundreds)
  qed
  have "k \<le> 6
      \<and> printUnit b = unit_names ! k \<and> printSize b = dec2 v
      \<and> v = rne (fb / unitFactor k * 100)
      \<and> (0 < k \<longrightarrow> unitFactor k \<le> fb) \<and> fb < unitFactor (k + 1)
      \<and> \<bar>of_int v / 100 * unitFactor k - of_nat n\<bar> \<le> unitFactor k / 200 + of_nat n / 2 ^ 53
      \<and> (n < 2 ^ 60 - 64 \<or> 2 ^ 60 \<le> n \<longrightarrow>
            (0 < k \<longrightarrow> unitFactor k \<le> of_nat n) \<and> of_nat n < unitFactor (k + 1))
      \<and> (2 ^ 60 - 64 \<le> n \<and> n < 2 ^ 60 \<longrightarrow> k = 6 \<and> v = 100)
      \<and> (n < 1024 \<longrightarrow> k = 0 \<and> printSize b = show_dec (int n) @ ''.00'')"
    using k6 pu ps lo hi tol thr win small unfolding v_def t_def by blast
  then show ?thesis unfolding fb_def n_def by blast
qed

theorem printSize_printUnit_scaling_witness:
  "printUnit 100 = ''B'' \<and> printSize 100 = ''100.00''
   \<and> printUnit 1152921504606846975 = ''EB'' \<and> printSize 1152921504606846975 = ''1.00''"
proof -
  obtain k v where a: "printUnit 100 = unit_names ! k"
    and b: "unat (100 :: uint64) < 1024 \<longrightarrow>
              k = 0 \<and> printSize 100 = show_dec (int (unat (100 :: uint64))) @ ''.00''"
    using printSize_printUnit_scaling [of 100] by auto
  have k0: "k = 0" and s: "printSize 100 = show_dec 100 @ ''.00''" using b by simp_all
  have "show_dec 100 = ''100''" by (simp add: show_dec.simps digit_char_def)
  then have small: "printUnit 100 = ''B'' \<and> printSize 100 = ''100.00''"
    using a k0 s by (simp add: unit_names_def)
  obtain k' v' where a': "printUnit 1152921504606846975 = unit_names ! k'"
    and p': "printSize 1152921504606846975 = dec2 v'"
    and b': "2 ^ 60 - 64 \<le> unat (1152921504606846975 :: uint64)
               \<and> unat (1152921504606846975 :: uint64) < 2 ^ 60 \<longrightarrow> k' = 6 \<and> v' = 100"
    using printSize_printUnit_scaling [of 1152921504606846975] by auto
  have "k' = 6" and "v' = 100" using b' by simp_all
  moreover have "dec2 100 = ''1.00''" by (simp add: dec2_def show_dec.simps digit_char_def)
  ultimately have "printUnit 1152921504606846975 = ''EB'' \<and> printSize 1152921504606846975 = ''1.00''"
    using a' p' by (simp add: unit_names_def)
  then show ?thesis using small by simp
qed

section \<open>Strings: results\<close>

lemma split_on_nonempty: "split_on c s \<noteq> []"
  by (induction s) (auto split: list.splits)

lemma split_on_no_sep: "x \<in> set (split_on c s) \<Longrightarrow> c \<notin> set x"
proof (induction s arbitrary: x)
  case Nil
  then show ?case by simp
next
  case (Cons a s)
  show ?case
  proof (cases "a = c")
    case True
    then show ?thesis using Cons by auto
  next
    case False
    obtain w ws where w: "split_on c s = w # ws"
      using split_on_nonempty [of c s] by (cases "split_on c s") auto
    then have "x = a # w \<or> x \<in> set ws" using Cons.prems False by simp
    moreover have "c \<notin> set w" using Cons.IH [of w] w by simp
    moreover have "x \<in> set ws \<Longrightarrow> c \<notin> set x" using Cons.IH [of x] w by simp
    ultimately show ?thesis using False by auto
  qed
qed

lemma split_on_single: "c \<notin> set x \<Longrightarrow> split_on c x = [x]"
  by (induction x) auto

lemma split_on_append: "c \<notin> set x \<Longrightarrow> split_on c (x @ c # rest) = x # split_on c rest"
  by (induction x) auto

lemma join_Cons: "join sep (x # xs) = x @ (if xs = [] then [] else sep @ join sep xs)"
  by (cases xs) simp_all

lemma split_on_join:
  "xs \<noteq> [] \<Longrightarrow> \<forall>x\<in>set xs. c \<notin> set x \<Longrightarrow> split_on c (join [c] xs) = xs"
proof (induction xs)
  case Nil
  then show ?case by simp
next
  case (Cons x xs)
  show ?case
  proof (cases "xs = []")
    case True
    then show ?thesis using Cons.prems by (simp add: split_on_single)
  next
    case False
    then have "split_on c (join [c] xs) = xs" using Cons by simp
    moreover have "join [c] (x # xs) = x @ c # join [c] xs" using False by (simp add: join_Cons)
    ultimately show ?thesis using Cons.prems by (simp add: split_on_append)
  qed
qed

section \<open>Active cores: results\<close>

lemma digits_val_nonneg:
  "list_all is_digit s \<Longrightarrow> 0 \<le> acc \<Longrightarrow> 0 \<le> digits_val acc s"
proof (induction s arbitrary: acc)
  case Nil
  then show ?case by simp
next
  case (Cons c cs)
  have "48 \<le> (of_char c :: nat)" using Cons.prems(1) by (simp add: is_digit_def)
  then have "int 48 \<le> int (of_char c)" by (simp only: of_nat_le_iff)
  then have "(48 :: int) \<le> of_char c" by (simp add: of_nat_of_char)
  then have "0 \<le> acc * 10 + (of_char c - 48)" using Cons.prems(2) by simp
  then show ?case using Cons by simp
qed

lemma ParseUint_nonneg: "ParseUint s = Some un \<Longrightarrow> 0 \<le> un"
  by (auto simp: ParseUint_def digits_val_nonneg split: if_splits)

lemma Atoi_range:
  assumes "Atoi s = Some v"
  shows "- (2 ^ 63) \<le> v" and "v < 2 ^ 63"
proof -
  obtain c cs where s: "s = c # cs" using assms by (cases s) (simp_all add: Atoi_def)
  define ds where "ds = (if c = CHR ''+'' \<or> c = CHR ''-'' then cs else c # cs)"
  obtain un where un: "ParseUint ds = Some un"
    using assms s by (cases "ParseUint ds") (simp_all add: Atoi_def Let_def ds_def)
  have u0: "0 \<le> un" using un by (rule ParseUint_nonneg)
  have v: "(if c \<noteq> CHR ''-'' \<and> un \<ge> 2 ^ 63 then None
            else if c = CHR ''-'' \<and> un > 2 ^ 63 then None
            else Some (if c = CHR ''-'' then - un else un)) = Some v"
    using assms s un by (simp add: Atoi_def Let_def ds_def)
  show "- (2 ^ 63) \<le> v" using v u0 by (auto split: if_splits)
  show "v < 2 ^ 63" using v u0 by (auto split: if_splits)
qed

lemma wrap_int64_id: "- (2 ^ 63) \<le> x \<Longrightarrow> x < 2 ^ 63 \<Longrightarrow> wrap_int64 x = x"
  by (simp add: wrap_int64_def)

lemma wrap_int64_range: "- (2 ^ 63) \<le> wrap_int64 x \<and> wrap_int64 x < 2 ^ 63"
proof -
  have "0 \<le> (x + 2 ^ 63) mod 2 ^ 64" by simp
  moreover have "(x + 2 ^ 63) mod 2 ^ 64 < 2 ^ 64" by simp
  ultimately show ?thesis by (simp add: wrap_int64_def)
qed


lemma range_loop_done: "e < i \<Longrightarrow> range_loop i e m = Some m"
  by (subst range_loop.simps) simp

lemma range_loop_terminates:
  assumes "e < 2 ^ 63 - 1" and "- (2 ^ 63) \<le> i"
  shows "range_loop i e m = Some (\<lambda>k. if i \<le> k \<and> k \<le> e then Some True else m k)"
  using assms(2)
proof (induction "nat (e + 1 - i)" arbitrary: i m)
  case 0
  then have ei: "e < i" by simp
  have "(if i \<le> k \<and> k \<le> e then Some True else m k) = m k" for k
  proof -
    have "\<not> (i \<le> k \<and> k \<le> e)" using ei by linarith
    then show ?thesis by (simp only: if_False)
  qed
  then have "(\<lambda>k. if i \<le> k \<and> k \<le> e then Some True else m k) = m"
    by (intro ext)
  then show ?case using range_loop_done [OF ei] by simp
next
  case (Suc n)
  then have ie: "i \<le> e" by simp
  have w: "wrap_int64 (i + 1) = i + 1"
    using ie assms(1) Suc.prems by (intro wrap_int64_id) simp_all
  have "n = nat (e + 1 - (i + 1))" using Suc.hyps(2) by simp
  moreover have "- (2 ^ 63) \<le> i + 1" using Suc.prems by simp
  ultimately have "range_loop (i + 1) e (m(i \<mapsto> True)) =
      Some (\<lambda>k. if i + 1 \<le> k \<and> k \<le> e then Some True else (m(i \<mapsto> True)) k)"
    by (rule Suc.hyps(1))
  moreover have "(\<lambda>k. if i + 1 \<le> k \<and> k \<le> e then Some True else (m(i \<mapsto> True)) k) =
      (\<lambda>k. if i \<le> k \<and> k \<le> e then Some True else m k)"
    using ie by (intro ext) auto
  moreover have "range_loop i e m = range_loop (i + 1) e (m(i \<mapsto> True))"
    using ie w by (subst range_loop.simps) simp
  ultimately show ?case by simp
qed

lemma range_loop_endless:
  assumes "- (2 ^ 63) \<le> i" and "i \<le> 2 ^ 63 - 1"
  shows "range_loop i (2 ^ 63 - 1) m = None"
proof (rule ccontr)
  assume "range_loop i (2 ^ 63 - 1) m \<noteq> None"
  then obtain y where y: "range_loop i (2 ^ 63 - 1) m = Some y" by auto
  have "(e = 2 ^ 63 - 1 \<and> - (2 ^ 63) \<le> j \<and> j \<le> 2 ^ 63 - 1) \<longrightarrow> False"
    if "range_loop j e a = Some r" for j e a r
  proof (rule range_loop.raw_induct
      [where P = "\<lambda>j e a r. (e = 2 ^ 63 - 1 \<and> - (2 ^ 63) \<le> j \<and> j \<le> 2 ^ 63 - 1) \<longrightarrow> False",
        OF _ that])
    fix f :: "int \<Rightarrow> int \<Rightarrow> (int \<rightharpoonup> bool) \<Rightarrow> (int \<rightharpoonup> bool) option"
    fix i e :: int and m y :: "int \<rightharpoonup> bool"
    assume IH: "\<And>i e m y. f i e m = Some y \<Longrightarrow>
        (e = 2 ^ 63 - 1 \<and> - (2 ^ 63) \<le> i \<and> i \<le> 2 ^ 63 - 1) \<longrightarrow> False"
      and eq: "(if i \<le> e then f (wrap_int64 (i + 1)) e (m(i \<mapsto> True)) else Some m) = Some y"
    show "(e = 2 ^ 63 - 1 \<and> - (2 ^ 63) \<le> i \<and> i \<le> 2 ^ 63 - 1) \<longrightarrow> False"
    proof
      assume a: "e = 2 ^ 63 - 1 \<and> - (2 ^ 63) \<le> i \<and> i \<le> 2 ^ 63 - 1"
      then have "f (wrap_int64 (i + 1)) e (m(i \<mapsto> True)) = Some y" using eq by simp
      then have "(e = 2 ^ 63 - 1 \<and> - (2 ^ 63) \<le> wrap_int64 (i + 1)
            \<and> wrap_int64 (i + 1) \<le> 2 ^ 63 - 1) \<longrightarrow> False"
        by (rule IH)
      then show False using a wrap_int64_range [of "i + 1"] by simp
    qed
  qed
  then show False using y assms by blast
qed

lemma core_entry_result:
  assumes "\<not> endless_entry corebits"
  shows "\<exists>m'. core_entry m corebits = Some m'
           \<and> (\<forall>k. m' k = (if k \<in> entry_cores corebits then Some True else m k))"
proof -
  define cores where "cores = split_on CHR ''-'' corebits"
  consider "cores = []" | a where "cores = [a]" | a b where "cores = [a, b]"
    | a b c ds where "cores = a # b # c # ds"
    by (cases cores rule: list.exhaust; simp) (metis list.exhaust)
  then show ?thesis
  proof cases
    case 1
    then show ?thesis
      by (simp add: core_entry_def entry_cores_def cores_def [symmetric])
  next
    case 2
    then show ?thesis
      by (cases "Atoi a")
         (simp_all add: core_entry_def entry_cores_def cores_def [symmetric])
  next
    case 3
    show ?thesis
    proof (cases "Atoi a")
      case None
      then show ?thesis using 3
        by (simp add: core_entry_def entry_cores_def cores_def [symmetric])
    next
      case (Some start)
      note sa = Some
      show ?thesis
      proof (cases "Atoi b")
        case None
        then show ?thesis using 3 sa
          by (simp add: core_entry_def entry_cores_def cores_def [symmetric])
      next
        case (Some e)
        have ce: "core_entry m corebits = range_loop start e m"
          using 3 sa Some by (simp add: core_entry_def cores_def [symmetric])
        have ec: "entry_cores corebits = {start..e}"
          using 3 sa Some by (simp add: entry_cores_def cores_def [symmetric])
        show ?thesis
        proof (cases "start \<le> e")
          case True
          have "e \<noteq> 2 ^ 63 - 1"
            using assms 3 sa Some True by (simp add: endless_entry_def cores_def [symmetric])
          then have "e < 2 ^ 63 - 1" using Atoi_range(2) [OF Some] by simp
          then have "range_loop start e m =
              Some (\<lambda>k. if start \<le> k \<and> k \<le> e then Some True else m k)"
            using Atoi_range(1) [OF sa] by (rule range_loop_terminates)
          then show ?thesis by (simp add: ce ec)
        next
          case False
          then have "range_loop start e m = Some m" by (intro range_loop_done) simp
          then show ?thesis using False by (simp add: ce ec)
        qed
      qed
    qed
  next
    case 4
    then show ?thesis
      by (simp add: core_entry_def entry_cores_def cores_def [symmetric]
          split: option.splits list.splits)
  qed
qed

lemma core_entry_endless:
  assumes "endless_entry corebits"
  shows "core_entry m corebits = None"
proof -
  define cores where "cores = split_on CHR ''-'' corebits"
  have en: "(case map Atoi cores of
               [Some start, Some e] \<Rightarrow> start \<le> e \<and> e = 2 ^ 63 - 1
             | _ \<Rightarrow> False)"
    using assms by (simp add: endless_entry_def cores_def)
  consider "cores = []" | a where "cores = [a]" | a b where "cores = [a, b]"
    | a b c ds where "cores = a # b # c # ds"
    by (cases cores rule: list.exhaust; simp) (metis list.exhaust)
  then show ?thesis
  proof cases
    case 1
    then show ?thesis using en by simp
  next
    case 2
    then show ?thesis using en by (cases "Atoi a") simp_all
  next
    case 3
    then obtain start e where sa: "Atoi a = Some start" and sb: "Atoi b = Some e"
      and le: "start \<le> e" and mx: "e = 2 ^ 63 - 1"
      using en by (cases "Atoi a"; cases "Atoi b") simp_all
    have "range_loop start (2 ^ 63 - 1) m = None"
      using Atoi_range(1) [OF sa] le mx by (intro range_loop_endless) simp_all
    then show ?thesis using 3 sa sb mx by (simp add: core_entry_def cores_def [symmetric])
  next
    case 4
    then show ?thesis using en by (cases "Atoi a"; cases "Atoi b") simp_all
  qed
qed

lemma cores_loop_result:
  assumes "\<forall>c\<in>set es. \<not> endless_entry c"
  shows "\<exists>m'. cores_loop m es = Some m'
           \<and> (\<forall>k. m' k = (if k \<in> (\<Union>c\<in>set es. entry_cores c) then Some True else m k))"
  using assms
proof (induction es arbitrary: m)
  case Nil
  then show ?case by simp
next
  case (Cons c es)
  obtain m1 where m1: "core_entry m c = Some m1"
    and k1: "\<And>k. m1 k = (if k \<in> entry_cores c then Some True else m k)"
    using core_entry_result [of c m] Cons.prems by auto
  obtain m2 where m2: "cores_loop m1 es = Some m2"
    and k2: "\<And>k. m2 k = (if k \<in> (\<Union>c\<in>set es. entry_cores c) then Some True else m1 k)"
    using Cons.IH [of m1] Cons.prems by auto
  have "cores_loop m (c # es) = Some m2" using m1 m2 by simp
  moreover have "m2 k = (if k \<in> (\<Union>c\<in>set (c # es). entry_cores c) then Some True else m k)" for k
    using k1 [of k] k2 [of k] by auto
  ultimately show ?case by blast
qed

lemma cores_loop_endless:
  assumes "\<exists>c\<in>set es. endless_entry c"
  shows "cores_loop m es = None"
  using assms
proof (induction es arbitrary: m)
  case Nil
  then show ?case by simp
next
  case (Cons c es)
  show ?case
  proof (cases "endless_entry c")
    case True
    then show ?thesis by (simp add: core_entry_endless)
  next
    case False
    then obtain m1 where "core_entry m c = Some m1" using core_entry_result [of c m] by auto
    moreover have "cores_loop m1 es = None" using Cons False by auto
    ultimately show ?thesis by simp
  qed
qed

lemma getActiveCores_result:
  assumes "\<forall>c\<in>set (split_on CHR '','' maskstr). \<not> endless_entry c"
  shows "\<exists>m. getActiveCores maskstr = Some m
           \<and> (\<forall>k. m k = (if k \<in> ParseCoreMask_spec maskstr then Some True else None))"
  using cores_loop_result [OF assms, of Map.empty]
  by (simp add: getActiveCores_def ParseCoreMask_spec_def)

lemma mask_loop_result:
  "length masks = n \<Longrightarrow> i \<le> n \<Longrightarrow>
     mask_loop a n i masks = take i masks @ map (core_span a) [i..<n]"
proof (induction a n i masks rule: mask_loop.induct)
  case (1 a n i masks)
  show ?case
  proof (cases "i < n")
    case True
    have "mask_loop a n i masks = mask_loop a n (i + 1) (masks[i := core_span a i])"
      using True by (subst mask_loop.simps) simp
    also have "\<dots> = take (i + 1) (masks[i := core_span a i]) @ map (core_span a) [i + 1..<n]"
      using 1 True by simp
    also have "take (i + 1) (masks[i := core_span a i]) = take i masks @ [core_span a i]"
      using True 1(2) by (simp add: take_Suc_conv_app_nth)
    finally show ?thesis using True by (simp add: upt_conv_Cons)
  next
    case False
    then show ?thesis using 1(2,3) by (subst mask_loop.simps) simp
  qed
qed

lemma Atoi_0: "Atoi ''0'' = Some 0" by (simp add: Atoi_def ParseUint_def is_digit_def)
lemma Atoi_1: "Atoi ''1'' = Some 1" by (simp add: Atoi_def ParseUint_def is_digit_def)
lemma Atoi_2: "Atoi ''2'' = Some 2" by (simp add: Atoi_def ParseUint_def is_digit_def)
lemma Atoi_5: "Atoi ''5'' = Some 5" by (simp add: Atoi_def ParseUint_def is_digit_def)
lemma Atoi_abc: "Atoi ''abc'' = None" by (simp add: Atoi_def ParseUint_def is_digit_def)
lemma Atoi_max: "Atoi ''9223372036854775807'' = Some 9223372036854775807"
  by (simp add: Atoi_def ParseUint_def is_digit_def)
lemma Atoi_over: "Atoi ''9223372036854775808'' = None"
  by (simp add: Atoi_def ParseUint_def is_digit_def)

lemma example_0_2_5:
  "\<exists>m. getActiveCores ''0-2,5'' = Some m \<and> dom m = {0, 1, 2, 5}"
proof -
  have e: "\<forall>c\<in>set (split_on CHR '','' ''0-2,5''). \<not> endless_entry c"
    by (simp add: endless_entry_def Atoi_0 Atoi_2 Atoi_5)
  have "ParseCoreMask_spec ''0-2,5'' = {0..2} \<union> {5}"
    by (simp add: ParseCoreMask_spec_def entry_cores_def Atoi_0 Atoi_2 Atoi_5)
  also have "\<dots> = {0, 1, 2, 5 :: int}" by auto
  finally have p: "ParseCoreMask_spec ''0-2,5'' = {0, 1, 2, 5}" .
  obtain m where m: "getActiveCores ''0-2,5'' = Some m"
    and k: "\<And>k. m k = (if k \<in> ParseCoreMask_spec ''0-2,5'' then Some True else None)"
    using getActiveCores_result [OF e] by blast
  have "dom m = ParseCoreMask_spec ''0-2,5''" using k by (auto simp: dom_def)
  then show ?thesis using m p by simp
qed

lemma example_abc_1:
  "\<exists>m. getActiveCores ''abc,1'' = Some m \<and> dom m = {1}"
proof -
  have e: "\<forall>c\<in>set (split_on CHR '','' ''abc,1''). \<not> endless_entry c"
    by (simp add: endless_entry_def Atoi_abc Atoi_1)
  have p: "ParseCoreMask_spec ''abc,1'' = {1}"
    by (simp add: ParseCoreMask_spec_def entry_cores_def Atoi_abc Atoi_1)
  obtain m where m: "getActiveCores ''abc,1'' = Some m"
    and k: "\<And>k. m k = (if k \<in> ParseCoreMask_spec ''abc,1'' then Some True else None)"
    using getActiveCores_result [OF e] by blast
  have "dom m = ParseCoreMask_spec ''abc,1''" using k by (auto simp: dom_def)
  then show ?thesis using m p by simp
qed

lemma core_span_text: "core_span a i = span_text (lookup_core a (int i)) i"
  by (simp add: core_span_def span_text_def)

lemma spec_3_0_1: "ParseCoreMask_spec ''3,0-1'' = {0, 1, 3}"
proof -
  have "Atoi ''3'' = Some 3" by (simp add: Atoi_def ParseUint_def is_digit_def)
  then have "ParseCoreMask_spec ''3,0-1'' = {3} \<union> {0..1}"
    by (simp add: ParseCoreMask_spec_def entry_cores_def Atoi_0 Atoi_1)
  also have "\<dots> = {0, 1, 3 :: int}" by auto
  finally show ?thesis .
qed

text \<open>
  C5, as stated, fails on an integer token that the 64-bit \<^verbatim>\<open>int\<close> cannot hold: the
  entry \<^verbatim>\<open>9223372036854775808\<close> is a single integer, \<^verbatim>\<open>strconv.Atoi\<close> rejects it as
  out of range, and the entry is skipped.
\<close>

theorem getActiveCores_int_range_counterexample:
  "integer_token ''9223372036854775808'' = Some 9223372036854775808
   \<and> getActiveCores ''9223372036854775808'' = Some Map.empty"
  by (simp add: integer_token_def ParseUint_def is_digit_def getActiveCores_def core_entry_def Atoi_over)

text \<open>
  C5 (amended): for every mask string none of whose comma-separated entries is a range
  \<open>start-end\<close> with \<open>start \<le> end\<close> and \<open>end = 2^63 - 1\<close>, \<^verbatim>\<open>getActiveCores\<close> returns
  the set that holds, per entry, the single integer or every index of the inclusive range
  \<open>start-end\<close>, where an integer is a token that \<^verbatim>\<open>strconv.Atoi\<close> parses (optional
  sign, decimal digits, within the 64-bit \<^verbatim>\<open>int\<close>); every other entry is skipped and
  no error is returned.  For every \<open>numCores \<ge> 0\<close> the rendered mask has exactly
  \<open>numCores\<close> entries and entry \<open>i\<close> is active iff \<open>i\<close> is in the parsed set.  In
  particular the mask \<^verbatim>\<open>0-2,5\<close> gives \<open>{0,1,2,5}\<close> and \<^verbatim>\<open>abc,1\<close> gives \<open>{1}\<close>.
\<close>

theorem getActiveCores_parses_mask:
  assumes "\<forall>corebits\<in>set (split_on CHR '','' maskstr). \<not> endless_entry corebits"
  shows "(\<exists>activeCores. getActiveCores maskstr = Some activeCores
          \<and> dom activeCores = ParseCoreMask_spec maskstr
          \<and> (\<forall>i. lookup_core activeCores i = (i \<in> ParseCoreMask_spec maskstr)))
       \<and> (0 \<le> numCores \<longrightarrow>
            (\<exists>masks. printMask_spans maskstr numCores = Some (Inr masks)
               \<and> printMask maskstr numCores = Some (Inr (join ''&nbsp;'' masks))
               \<and> length masks = nat numCores
               \<and> (\<forall>i<nat numCores.
                     masks ! i = span_text (int i \<in> ParseCoreMask_spec maskstr) i)))
       \<and> (\<exists>m. getActiveCores ''0-2,5'' = Some m \<and> dom m = {0, 1, 2, 5})
       \<and> (\<exists>m. getActiveCores ''abc,1'' = Some m \<and> dom m = {1})"
proof -
  obtain m where m: "getActiveCores maskstr = Some m"
    and k: "\<And>k. m k = (if k \<in> ParseCoreMask_spec maskstr then Some True else None)"
    using getActiveCores_result [OF assms] by blast
  have d: "dom m = ParseCoreMask_spec maskstr" using k by (auto simp: dom_def)
  have l: "lookup_core m i = (i \<in> ParseCoreMask_spec maskstr)" for i
    by (simp add: lookup_core_def k)
  have p: "\<exists>masks. printMask_spans maskstr numCores = Some (Inr masks)
               \<and> printMask maskstr numCores = Some (Inr (join ''&nbsp;'' masks))
               \<and> length masks = nat numCores
               \<and> (\<forall>i<nat numCores.
                     masks ! i = span_text (int i \<in> ParseCoreMask_spec maskstr) i)"
    if n0: "0 \<le> numCores"
  proof -
    define n where "n = nat numCores"
    define masks where "masks = mask_loop m n 0 (replicate n [])"
    have ms: "masks = map (core_span m) [0..<n]"
      unfolding masks_def using mask_loop_result [of "replicate n []" n 0 m] by simp
    have sp: "printMask_spans maskstr numCores = Some (Inr masks)"
      using n0 m by (simp add: printMask_spans_def masks_def n_def)
    then have "printMask maskstr numCores = Some (Inr (join ''&nbsp;'' masks))"
      by (simp add: printMask_def)
    moreover have "length masks = n" by (simp add: ms)
    moreover have "masks ! i = span_text (int i \<in> ParseCoreMask_spec maskstr) i" if "i < n" for i
      using that by (simp add: ms core_span_text l)
    ultimately show ?thesis using sp unfolding n_def by blast
  qed
  show ?thesis using m d l p example_0_2_5 example_abc_1 by blast
qed

theorem getActiveCores_parses_mask_witness:
  "(\<exists>activeCores. getActiveCores ''3,0-1'' = Some activeCores \<and> dom activeCores = {0, 1, 3})
   \<and> (\<exists>masks. printMask ''3,0-1'' 4 = Some (Inr (join ''&nbsp;'' masks))
         \<and> masks = [span_text True 0, span_text True 1, span_text False 2, span_text True 3])"
proof -
  have e: "\<forall>c\<in>set (split_on CHR '','' ''3,0-1''). \<not> endless_entry c"
    by (simp add: endless_entry_def Atoi_0 Atoi_1 split: option.splits)
  have t: "(\<exists>activeCores. getActiveCores ''3,0-1'' = Some activeCores
          \<and> dom activeCores = ParseCoreMask_spec ''3,0-1''
          \<and> (\<forall>i. lookup_core activeCores i = (i \<in> ParseCoreMask_spec ''3,0-1'')))
       \<and> (\<exists>masks. printMask_spans ''3,0-1'' 4 = Some (Inr masks)
               \<and> printMask ''3,0-1'' 4 = Some (Inr (join ''&nbsp;'' masks))
               \<and> length masks = nat 4
               \<and> (\<forall>i<nat 4. masks ! i = span_text (int i \<in> ParseCoreMask_spec ''3,0-1'') i))"
    using getActiveCores_parses_mask [OF e, of 4] by simp
  then obtain masks where m: "printMask ''3,0-1'' 4 = Some (Inr (join ''&nbsp;'' masks))"
    and l: "length masks = 4"
    and n: "\<forall>i<4. masks ! i = span_text (int i \<in> {0, 1, 3}) i"
    by (auto simp: spec_3_0_1)
  have "masks = [masks ! 0, masks ! 1, masks ! 2, masks ! 3]"
    using l by (intro nth_equalityI) (auto simp: nth_Cons' less_Suc_eq numeral_eq_Suc)
  moreover have "masks ! 0 = span_text True 0" "masks ! 1 = span_text True 1"
    "masks ! 2 = span_text False 2" "masks ! 3 = span_text True 3"
    using n by simp_all
  ultimately have "masks = [span_text True 0, span_text True 1, span_text False 2, span_text True 3]"
    by simp
  then show ?thesis using t m by (auto simp: spec_3_0_1)
qed

lemma Atoi_nonneg:
  assumes "CHR ''-'' \<notin> set s" and "Atoi s = Some v"
  shows "0 \<le> v"
proof -
  obtain c cs where s: "s = c # cs" using assms(2) by (cases s) (simp_all add: Atoi_def)
  define ds where "ds = (if c = CHR ''+'' \<or> c = CHR ''-'' then cs else c # cs)"
  obtain un where un: "ParseUint ds = Some un"
    using assms(2) s by (cases "ParseUint ds") (simp_all add: Atoi_def Let_def ds_def)
  have u0: "0 \<le> un" using un by (rule ParseUint_nonneg)
  have "c \<noteq> CHR ''-''" using assms(1) s by auto
  then show ?thesis using assms(2) s un u0
    by (auto simp: Atoi_def Let_def ds_def split: if_splits)
qed

lemma entry_cores_nonneg:
  assumes "k \<in> entry_cores corebits"
  shows "0 \<le> k"
proof -
  define cores where "cores = split_on CHR ''-'' corebits"
  have nd: "\<And>t. t \<in> set cores \<Longrightarrow> CHR ''-'' \<notin> set t"
    unfolding cores_def by (rule split_on_no_sep)
  have k: "k \<in> (case map Atoi cores of
                   [Some index] \<Rightarrow> {index}
                 | [Some start, Some e] \<Rightarrow> {start..e}
                 | _ \<Rightarrow> {})"
    using assms by (simp add: entry_cores_def cores_def)
  consider "cores = []" | a where "cores = [a]" | a b where "cores = [a, b]"
    | a b c ds where "cores = a # b # c # ds"
    by (cases cores rule: list.exhaust; simp) (metis list.exhaust)
  then show ?thesis
  proof cases
    case 1
    then show ?thesis using k by simp
  next
    case 2
    then obtain v where "Atoi a = Some v" "k = v" using k by (cases "Atoi a") simp_all
    then show ?thesis using Atoi_nonneg [of a v] nd [of a] 2 by simp
  next
    case 3
    then obtain start e where "Atoi a = Some start" "Atoi b = Some e" "start \<le> k"
      using k by (cases "Atoi a"; cases "Atoi b") simp_all
    then show ?thesis using Atoi_nonneg [of a start] nd [of a] 3 by simp
  next
    case 4
    then show ?thesis using k by (cases "Atoi a"; cases "Atoi b") simp_all
  qed
qed

lemma getActiveCores_returns_iff:
  "(\<exists>m. getActiveCores maskstr = Some m)
     \<longleftrightarrow> (\<forall>c\<in>set (split_on CHR '','' maskstr). \<not> endless_entry c)"
proof
  assume "\<exists>m. getActiveCores maskstr = Some m"
  then obtain m where m: "cores_loop Map.empty (split_on CHR '','' maskstr) = Some m"
    by (auto simp: getActiveCores_def)
  show "\<forall>c\<in>set (split_on CHR '','' maskstr). \<not> endless_entry c"
  proof (rule ccontr)
    assume "\<not> (\<forall>c\<in>set (split_on CHR '','' maskstr). \<not> endless_entry c)"
    then have "\<exists>c\<in>set (split_on CHR '','' maskstr). endless_entry c" by simp
    then have "cores_loop Map.empty (split_on CHR '','' maskstr) = None"
      by (rule cores_loop_endless)
    then show False using m by simp
  qed
next
  assume "\<forall>c\<in>set (split_on CHR '','' maskstr). \<not> endless_entry c"
  then show "\<exists>m. getActiveCores maskstr = Some m"
    using getActiveCores_result [of maskstr] by blast
qed

lemma getActiveCores_nonneg:
  assumes "getActiveCores maskstr = Some m" and "k \<in> dom m"
  shows "0 \<le> k"
proof -
  have "\<forall>c\<in>set (split_on CHR '','' maskstr). \<not> endless_entry c"
    using assms(1) getActiveCores_returns_iff [of maskstr] by blast
  then obtain m' where "getActiveCores maskstr = Some m'"
    and "\<And>k. m' k = (if k \<in> ParseCoreMask_spec maskstr then Some True else None)"
    using getActiveCores_result [of maskstr] by blast
  then have "k \<in> ParseCoreMask_spec maskstr" using assms by (auto simp: dom_def split: if_splits)
  then show ?thesis using entry_cores_nonneg by (auto simp: ParseCoreMask_spec_def)
qed

lemma negative_singleton_dropped: "entry_cores ''-5'' = {} \<and> core_entry m ''-5'' = Some m"
  by (simp add: entry_cores_def core_entry_def Atoi_def)

lemma many_dashes_skipped:
  "2 < length (split_on CHR ''-'' corebits) \<Longrightarrow>
     entry_cores corebits = {} \<and> core_entry m corebits = Some m"
proof -
  assume a: "2 < length (split_on CHR ''-'' corebits)"
  then obtain x y z ws where "split_on CHR ''-'' corebits = x # y # z # ws"
    by (cases "split_on CHR ''-'' corebits" rule: list.exhaust; simp)
       (metis Suc_length_conv length_0_conv list.exhaust less_numeral_extra(3) One_nat_def
          Suc_1 less_Suc0 not_less_eq)
  then show ?thesis
    by (cases "Atoi x"; cases "Atoi y") (simp_all add: entry_cores_def core_entry_def)
qed

text \<open>
  C10 at the mask \<^verbatim>\<open>0-9223372036854775807\<close>: both tokens parse, the loop counter can
  never exceed the greatest \<^verbatim>\<open>int\<close>, \<^verbatim>\<open>i++\<close> wraps around, and
  \<^verbatim>\<open>getActiveCores\<close> does not return.
\<close>

theorem getActiveCores_endless_range:
  "getActiveCores ''0-9223372036854775807'' = None"
proof -
  have "endless_entry ''0-9223372036854775807''"
    by (simp add: endless_entry_def Atoi_0 Atoi_max)
  then have "cores_loop Map.empty [''0-9223372036854775807''] = None"
    by (intro cores_loop_endless) simp
  then show ?thesis by (simp add: getActiveCores_def)
qed

section \<open>Breadcrumbs: results\<close>

lemma clean_elems_filter:
  "clean_elems rooted out (filter (\<lambda>e. e \<noteq> []) es) = clean_elems rooted out es"
  by (induction es arbitrary: out rooted) simp_all

lemma path_Clean_join:
  assumes "e \<noteq> []" and "\<forall>x\<in>set (e # es). CHR ''/'' \<notin> set x"
  shows "path_Clean (join ''/'' (e # es)) =
           (let s = join ''/'' (clean_elems False [] (e # es)) in if s = [] then ''.'' else s)"
proof -
  have ne: "join ''/'' (e # es) \<noteq> []" using assms(1) by (simp add: join_Cons)
  have "hd (join ''/'' (e # es)) = hd e" using assms(1) by (simp add: join_Cons)
  moreover have "hd e \<noteq> CHR ''/''" using assms by (cases e) auto
  ultimately have r: "\<not> hd (join ''/'' (e # es)) = CHR ''/''" by simp
  have sp: "split_on CHR ''/'' (join ''/'' (e # es)) = e # es"
    using assms(2) split_on_join [of "e # es" "CHR ''/''"] by simp
  show ?thesis using ne r by (simp add: path_Clean_def Let_def sp)
qed

lemma path_Join_filter:
  "\<forall>x\<in>set xs. CHR ''/'' \<notin> set x \<Longrightarrow>
     path_Join (filter (\<lambda>e. e \<noteq> []) xs) = path_Join xs"
proof (induction xs)
  case Nil
  then show ?case by simp
next
  case (Cons e es)
  show ?case
  proof (cases "e = []")
    case True
    then show ?thesis using Cons by simp
  next
    case False
    have a: "path_Clean (join ''/'' (e # es)) =
        (let s = join ''/'' (clean_elems False [] (e # es)) in if s = [] then ''.'' else s)"
      using False Cons.prems by (rule path_Clean_join)
    have "\<forall>x\<in>set (e # filter (\<lambda>e. e \<noteq> []) es). CHR ''/'' \<notin> set x"
      using Cons.prems by auto
    then have b: "path_Clean (join ''/'' (e # filter (\<lambda>e. e \<noteq> []) es)) =
        (let s = join ''/'' (clean_elems False [] (e # filter (\<lambda>e. e \<noteq> []) es))
         in if s = [] then ''.'' else s)"
      using False by (intro path_Clean_join)
    have "clean_elems False [] (filter (\<lambda>e. e \<noteq> []) (e # es)) = clean_elems False [] (e # es)"
      by (rule clean_elems_filter)
    then have "clean_elems False [] (e # filter (\<lambda>e. e \<noteq> []) es) = clean_elems False [] (e # es)"
      using False by simp
    then show ?thesis using False a b by simp
  qed
qed

lemma parents_loop_eq:
  "i \<le> length parts \<Longrightarrow>
   parents_loop parts i acc =
     acc @ map (\<lambda>j. \<lparr>Text = parts ! j,
                       Link = path_Join [ContainersPage, path_Join (drop 1 (take (j + 1) parts))]\<rparr>)
               (filter (\<lambda>j. parts ! j \<noteq> []) [i..<length parts])"
proof (induction parts i acc rule: parents_loop.induct)
  case (1 parts i acc)
  show ?case
  proof (cases "i < length parts")
    case False
    then show ?thesis using 1(3) by (subst parents_loop.simps) simp
  next
    case True
    then have u: "[i..<length parts] = i # [i + 1..<length parts]" by (simp add: upt_conv_Cons)
    show ?thesis
    proof (cases "parts ! i = []")
      case e: True
      have "parents_loop parts i acc = parents_loop parts (i + 1) acc"
        using True e by (subst parents_loop.simps) simp
      then show ?thesis using 1(1) [OF True e] True e u by simp
    next
      case ne: False
      have "parents_loop parts i acc = parents_loop parts (i + 1)
          (acc @ [\<lparr>Text = parts ! i,
                    Link = path_Join [ContainersPage, path_Join (drop 1 (take (i + 1) parts))]\<rparr>])"
        using True ne by (subst parents_loop.simps) simp
      then show ?thesis using 1(2) [OF True ne] True ne u by simp
    qed
  qed
qed

lemma breadcrumbs_a_b_c:
  "parentContainers ''/a/b/c'' =
     [\<lparr>Text = ''root'', Link = ''/containers/''\<rparr>,
      \<lparr>Text = ''a'', Link = ''/containers/a''\<rparr>,
      \<lparr>Text = ''b'', Link = ''/containers/a/b''\<rparr>,
      \<lparr>Text = ''c'', Link = ''/containers/a/b/c''\<rparr>]"
  by (simp add: parentContainers_def parents_loop.simps path_Clean_def ContainersPage_def Let_def)

lemma breadcrumbs_empty:
  "parentContainers [] = [\<lparr>Text = ''root'', Link = ''/containers/''\<rparr>]"
  by (simp add: parentContainers_def parents_loop.simps ContainersPage_def)

text \<open>
  C6: for every container path, the breadcrumb sequence starts with the entry
  \<open>root\<close> linked to the page root and continues, for each non-empty segment at index
  \<open>i \<ge> 1\<close> of the split path, in order, with the entry whose text is the segment and
  whose link is \<^verbatim>\<open>path.Join\<close> of the page root and the cumulative segments \<open>[1..i]\<close>;
  empty segments are skipped, and the cumulative join is the same taken over the non-empty
  segments only.  In particular the path \<^verbatim>\<open>/a/b/c\<close> yields root, a, b, c with the links
  \<^verbatim>\<open>/containers/\<close>, \<^verbatim>\<open>/containers/a\<close>, \<^verbatim>\<open>/containers/a/b\<close>, \<^verbatim>\<open>/containers/a/b/c\<close>,
  and the empty path yields the root entry alone.
\<close>

theorem breadcrumbs:
  "parentContainers name =
     \<lparr>Text = ''root'', Link = ContainersPage\<rparr> #
     map (\<lambda>i. \<lparr>Text = split_on CHR ''/'' name ! i,
                Link = path_Join [ContainersPage,
                         path_Join (drop 1 (take (i + 1) (split_on CHR ''/'' name)))]\<rparr>)
         (filter (\<lambda>i. split_on CHR ''/'' name ! i \<noteq> [])
                 [1..<length (split_on CHR ''/'' name)])
   \<and> (\<forall>i. path_Join (drop 1 (take (i + 1) (split_on CHR ''/'' name))) =
            path_Join (filter (\<lambda>s. s \<noteq> []) (drop 1 (take (i + 1) (split_on CHR ''/'' name)))))
   \<and> parentContainers ''/a/b/c'' =
       [\<lparr>Text = ''root'', Link = ''/containers/''\<rparr>,
        \<lparr>Text = ''a'', Link = ''/containers/a''\<rparr>,
        \<lparr>Text = ''b'', Link = ''/containers/a/b''\<rparr>,
        \<lparr>Text = ''c'', Link = ''/containers/a/b/c''\<rparr>]
   \<and> parentContainers [] = [\<lparr>Text = ''root'', Link = ''/containers/''\<rparr>]"
proof -
  define parts where "parts = split_on CHR ''/'' name"
  have "1 \<le> length parts"
    using split_on_nonempty [of "CHR ''/''" name] by (cases parts) (simp_all add: parts_def)
  then have a: "parents_loop parts 1 [\<lparr>Text = ''root'', Link = ContainersPage\<rparr>] =
      [\<lparr>Text = ''root'', Link = ContainersPage\<rparr>] @
      map (\<lambda>j. \<lparr>Text = parts ! j,
                 Link = path_Join [ContainersPage, path_Join (drop 1 (take (j + 1) parts))]\<rparr>)
          (filter (\<lambda>j. parts ! j \<noteq> []) [1..<length parts])"
    by (rule parents_loop_eq)
  have b: "path_Join (drop 1 (take (i + 1) parts)) =
      path_Join (filter (\<lambda>s. s \<noteq> []) (drop 1 (take (i + 1) parts)))" for i
  proof -
    have "\<forall>x\<in>set (drop 1 (take (i + 1) parts)). CHR ''/'' \<notin> set x"
      using split_on_no_sep [of _ "CHR ''/''" name]
      by (auto simp: parts_def dest!: in_set_dropD in_set_takeD)
    then show ?thesis by (rule path_Join_filter [symmetric])
  qed
  show ?thesis
    using a b breadcrumbs_a_b_c breadcrumbs_empty
    by (simp add: parentContainers_def parts_def [symmetric])
qed

lemma breadcrumbs_docker_x:
  "parentContainers ''/docker//x'' =
     [\<lparr>Text = ''root'', Link = ''/containers/''\<rparr>,
      \<lparr>Text = ''docker'', Link = ''/containers/docker''\<rparr>,
      \<lparr>Text = ''x'', Link = ''/containers/docker/x''\<rparr>]"
  by (simp add: parentContainers_def parents_loop.simps path_Clean_def ContainersPage_def Let_def)

theorem breadcrumbs_witness:
  "parentContainers ''/docker//x'' =
     \<lparr>Text = ''root'', Link = ContainersPage\<rparr> #
     map (\<lambda>i. \<lparr>Text = split_on CHR ''/'' ''/docker//x'' ! i,
                Link = path_Join [ContainersPage,
                         path_Join (drop 1 (take (i + 1) (split_on CHR ''/'' ''/docker//x'')))]\<rparr>)
         (filter (\<lambda>i. split_on CHR ''/'' ''/docker//x'' ! i \<noteq> [])
                 [1..<length (split_on CHR ''/'' ''/docker//x'')])"
  using breadcrumbs [of "''/docker//x''"] by (rule conjunct1)

section \<open>The page: errors\<close>

lemma Errorf_differs: "Errorf_get_container quote containerName err \<noteq> err"
proof
  assume "Errorf_get_container quote containerName err = err"
  then have "length (Errorf_get_container quote containerName err) = length err" by simp
  then show False by (simp add: Errorf_get_container_def)
qed

text \<open>
  C9, as stated, fails for the container-info error: a manager that answers
  \<^verbatim>\<open>NotFound\<close> for the name \<^verbatim>\<open>/x\<close> makes the page return a new error whose message
  wraps the name and the original message, not the original error.
\<close>

theorem serveContainersPage_wraps_counterexample:
  "serveContainersPage quote_plain ref_Name unknown_container_manager ''/containers/x''
     = Inr (Some (''Failed to get container '' @ [CHR 0x22] @ ''/x'' @ [CHR 0x22]
                  @ '' with error: NotFound''), None)
   \<and> serveContainersPage quote_plain ref_Name unknown_container_manager ''/containers/x''
     \<noteq> Inr (Some ''NotFound'', None)"
  by (simp add: serveContainersPage_def unknown_container_manager_def ContainersPage_def
      Errorf_get_container_def quote_plain_def)

text \<open>
  C9 (amended): for every request path that holds the page prefix, when the container-info
  fetch fails with an error, the page returns a new error whose message is
  \<^verbatim>\<open>Failed to get container\<close>, the quoted container name, \<^verbatim>\<open>with error:\<close> and the
  message of that error (never the error itself); when the container-info fetch succeeds
  and the machine-info fetch fails, the page returns the machine-info error verbatim.
\<close>

theorem serveContainersPage_errors:
  assumes "length ContainersPage - 1 \<le> length path"
  shows "(GetContainerInfo m (drop (length ContainersPage - 1) path) 60 = Inl err \<longrightarrow>
            serveContainersPage quote disp m path =
              Inr (Some (''Failed to get container ''
                         @ quote (drop (length ContainersPage - 1) path)
                         @ '' with error: '' @ err), None)
            \<and> ''Failed to get container '' @ quote (drop (length ContainersPage - 1) path)
                 @ '' with error: '' @ err \<noteq> err)
       \<and> (GetContainerInfo m (drop (length ContainersPage - 1) path) 60 = Inr cont
            \<and> GetMachineInfo m = Inl err \<longrightarrow>
            serveContainersPage quote disp m path = Inr (Some err, None))"
proof (intro conjI impI)
  assume a: "GetContainerInfo m (drop (length ContainersPage - 1) path) 60 = Inl err"
  show "serveContainersPage quote disp m path =
              Inr (Some (''Failed to get container ''
                         @ quote (drop (length ContainersPage - 1) path)
                         @ '' with error: '' @ err), None)"
    using assms a by (simp add: serveContainersPage_def Let_def Errorf_get_container_def)
  show "''Failed to get container '' @ quote (drop (length ContainersPage - 1) path)
                 @ '' with error: '' @ err \<noteq> err"
    using Errorf_differs [of quote "drop (length ContainersPage - 1) path" err]
    by (simp add: Errorf_get_container_def)
next
  assume "GetContainerInfo m (drop (length ContainersPage - 1) path) 60 = Inr cont
            \<and> GetMachineInfo m = Inl err"
  then show "serveContainersPage quote disp m path = Inr (Some err, None)"
    using assms by (simp add: serveContainersPage_def Let_def)
qed

theorem serveContainersPage_errors_witness:
  "serveContainersPage quote_plain ref_Name unknown_container_manager ''/containers/x'' =
      Inr (Some (''Failed to get container '' @ quote_plain ''/x''
                 @ '' with error: '' @ ''NotFound''), None)
   \<and> serveContainersPage quote_plain ref_Name no_machine_manager ''/containers/x'' =
      Inr (Some ''no machine info'', None)"
  using serveContainersPage_errors
          [of "''/containers/x''" unknown_container_manager "''NotFound''" quote_plain ref_Name]
        serveContainersPage_errors
          [of "''/containers/x''" no_machine_manager "''no machine info''" quote_plain ref_Name
              "\<lparr>info_Ref = \<lparr>ref_Name = ''/x'', Aliases = []\<rparr>, Subcontainers = [],
                info_Spec = mk_spec 0, info_Stats = []\<rparr>"]
  by (simp add: ContainersPage_def unknown_container_manager_def no_machine_manager_def)

end
